theory Spec2Isabelle
  imports Main "HOL-Library.AList"
begin

section \<open>The DAG store (src/dag/dag.go)\<close>

text \<open>
  The Go structs \<^verbatim>\<open>Vertex\<close> and \<^verbatim>\<open>DAG\<close> are records. A Go
  \<^verbatim>\<open>map[string]*Vertex\<close> whose values are the vertices named by its keys
  (\<^verbatim>\<open>Parents\<close>, \<^verbatim>\<open>Children\<close>, \<^verbatim>\<open>roots\<close>) is the list of its keys:
  storing under a key is \<^const>\<open>List.insert\<close>, \<^verbatim>\<open>delete\<close> is \<^const>\<open>removeAll\<close>,
  \<^verbatim>\<open>range\<close> walks the list. The table \<^verbatim>\<open>d.vertices\<close> is the list of the vertex
  objects themselves, looked up by their \<^verbatim>\<open>ID\<close> field, which \<^verbatim>\<open>AddVertex\<close> sets to
  the key and nothing changes afterwards. A \<^verbatim>\<open>*Vertex\<close> taken from one of the maps is
  followed by looking its key up in the table; writing through it updates the table
  entry; a key with no entry in the table, which no state built by the operations
  has, is passed over. The DAG store never inspects the payload
  \<^verbatim>\<open>Data interface{}\<close>, so it is a type parameter here; the engine, which compares
  payloads, fixes it below. The mutexes are not modelled: every operation is one
  atomic step.
\<close>

datatype DAGError = ErrVertexAlreadyExists | ErrVertexNotFound | ErrWouldCreateCycle

record 'd Vertex =
  ID :: string
  Data :: 'd
  Parents :: "string list"
  Children :: "string list"
  Preferred :: bool
  Color :: int
  Finalized :: bool

record 'd DAG =
  vertices :: "'d Vertex list"
  roots :: "string list"

definition NewDAG :: "'d DAG" where
  "NewDAG = \<lparr>vertices = [], roots = []\<rparr>"

text \<open>\<^verbatim>\<open>d.vertices[k]\<close> with its presence flag.\<close>

definition lookup :: "'d Vertex list \<Rightarrow> string \<Rightarrow> 'd Vertex option" where
  "lookup tbl k = find (\<lambda>v. ID v = k) tbl"

text \<open>A write through the pointer stored under key \<open>k\<close>.\<close>

definition upd_vertex :: "string \<Rightarrow> ('d Vertex \<Rightarrow> 'd Vertex) \<Rightarrow> 'd Vertex list \<Rightarrow> 'd Vertex list" where
  "upd_vertex k f tbl = map (\<lambda>v. if ID v = k then f v else v) tbl"

definition new_vertex :: "string \<Rightarrow> 'd \<Rightarrow> 'd Vertex" where
  "new_vertex vid dat =
     \<lparr>ID = vid, Data = dat, Parents = [], Children = [],
      Preferred = False, Color = 0, Finalized = False\<rparr>"

text \<open>
  \<^verbatim>\<open>func (d *DAG) AddVertex(id, data)\<close>. The returned \<^verbatim>\<open>*Vertex\<close> is the id of
  the new vertex.
\<close>

definition DAG_AddVertex :: "'d DAG \<Rightarrow> string \<Rightarrow> 'd \<Rightarrow> (DAGError + string) \<times> 'd DAG" where
  "DAG_AddVertex d vid dat =
     (case lookup (vertices d) vid of
        Some _ \<Rightarrow> (Inl ErrVertexAlreadyExists, d)
      | None \<Rightarrow>
          (Inr vid,
           d\<lparr>vertices := vertices d @ [new_vertex vid dat],
             roots := List.insert vid (roots d)\<rparr>))"

text \<open>
  The closure \<^verbatim>\<open>dfs\<close> of \<^verbatim>\<open>wouldCreateCycle\<close>, with the \<^verbatim>\<open>visited\<close> map
  threaded through: \<open>dfs\<close> is the body, \<open>dfs_range\<close> the \<^verbatim>\<open>for _, p := range v.Parents\<close>
  loop over the keys still to come. \<open>target\<close> is \<^verbatim>\<open>parent.ID\<close>. A key with no table
  entry is passed over.
\<close>

function dfs :: "'d Vertex list \<Rightarrow> string \<Rightarrow> string set \<Rightarrow> 'd Vertex \<Rightarrow> bool \<times> string set"
  and dfs_range :: "'d Vertex list \<Rightarrow> string \<Rightarrow> string set \<Rightarrow> string list \<Rightarrow> bool \<times> string set"
where
  "dfs tbl target visited v =
     (if ID v = target then (True, visited)
      else dfs_range tbl target (insert (ID v) visited) (Parents v))"
| "dfs_range tbl target visited [] = (False, visited)"
| "dfs_range tbl target visited (pid # pids) =
     (case lookup tbl pid of
        None \<Rightarrow> dfs_range tbl target visited pids
      | Some p \<Rightarrow>
          if ID p \<notin> visited then
            (case dfs tbl target visited p of
               (True, visited') \<Rightarrow> (True, visited')
             | (False, visited') \<Rightarrow> dfs_range tbl target visited' pids)
          else dfs_range tbl target visited pids)"
  by pat_completeness auto

text \<open>
  The search ends because every call of \<open>dfs\<close> from the loop marks one more of the
  finitely many ids of the table. That the loop goes on with a larger \<open>visited\<close> after
  a call is a property of the function itself, proved on its domain first.
\<close>

lemma dfs_visited_mono_partial:
  "dfs_dfs_range_dom (Inl (tbl, target, visited, v)) \<Longrightarrow>
     visited \<subseteq> snd (dfs tbl target visited v)"
  "dfs_dfs_range_dom (Inr (tbl, target, visited, pids)) \<Longrightarrow>
     visited \<subseteq> snd (dfs_range tbl target visited pids)"
proof (induction tbl target visited v and tbl target visited pids rule: dfs_dfs_range.pinduct)
  case (1 tbl target visited v)
  then show ?case by (auto simp: dfs.psimps)
next
  case (2 tbl target visited)
  then show ?case by (simp add: dfs_range.psimps)
next
  case (3 tbl target visited pid pids)
  show ?case
  proof (cases "lookup tbl pid")
    case None
    with 3 show ?thesis by (simp add: dfs_range.psimps)
  next
    case (Some p)
    show ?thesis
    proof (cases "ID p \<in> visited")
      case True
      with 3 Some show ?thesis by (simp add: dfs_range.psimps)
    next
      case False
      obtain b vis where r: "dfs tbl target visited p = (b, vis)" by force
      from 3(3)[OF Some False] r have sub: "visited \<subseteq> vis" by simp
      show ?thesis
      proof (cases b)
        case True
        with 3(1) Some False r sub show ?thesis by (simp add: dfs_range.psimps)
      next
        case bF: False
        from bF have "b = False" by simp
        from 3(4)[OF Some False r[symmetric] this]
        have "vis \<subseteq> snd (dfs_range tbl target vis pids)" .
        with 3(1) Some False r sub bF show ?thesis by (auto simp add: dfs_range.psimps)
      qed
    qed
  qed
qed

definition unvisited :: "'d Vertex list \<Rightarrow> string set \<Rightarrow> string set" where
  "unvisited tbl visited = ID ` set tbl - visited"

lemma lookup_Some_ID: "lookup tbl k = Some v \<Longrightarrow> ID v = k \<and> v \<in> set tbl"
  by (auto simp: lookup_def find_Some_iff)

termination dfs
proof (relation "inv_image (less_than <*lex*> less_than <*lex*> less_than)
    (\<lambda>x. case x of
        Inl (tbl, target, visited, v) \<Rightarrow>
          (card (unvisited tbl (insert (ID v) visited)), 1::nat, 0::nat)
      | Inr (tbl, target, visited, pids) \<Rightarrow>
          (card (unvisited tbl visited), 0, length pids))", goal_cases)
  case 1
  then show ?case by (intro wf_inv_image wf_lex_prod wf_less_than)
next
  case (2 tbl target visited v)
  then show ?case by simp
next
  case (3 tbl target visited pid pids)
  then show ?case by simp
next
  case (4 tbl target visited pid pids p)
  then have "ID p \<in> unvisited tbl visited"
    by (auto simp: unvisited_def dest: lookup_Some_ID)
  moreover have "unvisited tbl (insert (ID p) visited) = unvisited tbl visited - {ID p}"
    by (auto simp: unvisited_def)
  moreover have "finite (unvisited tbl visited)" by (simp add: unvisited_def)
  ultimately have "card (unvisited tbl (insert (ID p) visited)) < card (unvisited tbl visited)"
    by (metis card_Diff1_less)
  then show ?case by simp
next
  case (5 tbl target visited pid pids p x y)
  then have "visited \<subseteq> y"
    using dfs_visited_mono_partial(1)[of tbl target visited p] by (metis snd_conv)
  then have "unvisited tbl y \<subseteq> unvisited tbl visited" by (auto simp: unvisited_def)
  then have "card (unvisited tbl y) \<le> card (unvisited tbl visited)"
    by (simp add: card_mono unvisited_def)
  then show ?case by auto
next
  case (6 tbl target visited pid pids p)
  then show ?case by simp
qed

text \<open>\<^verbatim>\<open>func (d *DAG) wouldCreateCycle(parent, child *Vertex) bool\<close>: \<^verbatim>\<open>return dfs(child)\<close>.\<close>

definition wouldCreateCycle :: "'d DAG \<Rightarrow> 'd Vertex \<Rightarrow> 'd Vertex \<Rightarrow> bool" where
  "wouldCreateCycle d parent child = fst (dfs (vertices d) (ID parent) {} child)"

text \<open>\<^verbatim>\<open>func (d *DAG) AddEdge(parentID, childID string) error\<close>; \<open>None\<close> is \<^verbatim>\<open>nil\<close>.\<close>

definition AddEdge :: "'d DAG \<Rightarrow> string \<Rightarrow> string \<Rightarrow> DAGError option \<times> 'd DAG" where
  "AddEdge d parentID childID =
     (case lookup (vertices d) parentID of
        None \<Rightarrow> (Some ErrVertexNotFound, d)
      | Some parent \<Rightarrow>
          (case lookup (vertices d) childID of
             None \<Rightarrow> (Some ErrVertexNotFound, d)
           | Some child \<Rightarrow>
               if wouldCreateCycle d parent child then (Some ErrWouldCreateCycle, d)
               else
                 (None,
                  d\<lparr>vertices :=
                      upd_vertex childID (\<lambda>c. c\<lparr>Parents := List.insert parentID (Parents c)\<rparr>)
                        (upd_vertex parentID
                           (\<lambda>p. p\<lparr>Children := List.insert childID (Children p)\<rparr>) (vertices d)),
                    roots := removeAll childID (roots d)\<rparr>)))"

text \<open>\<^verbatim>\<open>func (d *DAG) GetVertex(id string) (*Vertex, error)\<close>, read at the time of the call.\<close>

definition DAG_GetVertex :: "'d DAG \<Rightarrow> string \<Rightarrow> DAGError + 'd Vertex" where
  "DAG_GetVertex d vid =
     (case lookup (vertices d) vid of None \<Rightarrow> Inl ErrVertexNotFound | Some v \<Rightarrow> Inr v)"

text \<open>
  \<^verbatim>\<open>func (d *DAG) RemoveVertex(id string) error\<close>. The two loops run over the keys
  of \<^verbatim>\<open>v.Parents\<close> and \<^verbatim>\<open>v.Children\<close>; the second one also promotes a child left
  without parents to a root.
\<close>

definition detach_child :: "string \<Rightarrow> string \<Rightarrow> 'd Vertex list \<times> string list \<Rightarrow> 'd Vertex list \<times> string list" where
  "detach_child vid cid st =
     (let tbl = upd_vertex cid (\<lambda>c. c\<lparr>Parents := removeAll vid (Parents c)\<rparr>) (fst st)
      in (tbl,
          case lookup tbl cid of
            Some child \<Rightarrow> if length (Parents child) = 0 then List.insert cid (snd st) else snd st
          | None \<Rightarrow> snd st))"

definition RemoveVertex :: "'d DAG \<Rightarrow> string \<Rightarrow> DAGError option \<times> 'd DAG" where
  "RemoveVertex d vid =
     (case lookup (vertices d) vid of
        None \<Rightarrow> (Some ErrVertexNotFound, d)
      | Some v \<Rightarrow>
          (let tbl1 = fold (\<lambda>pid. upd_vertex pid (\<lambda>p. p\<lparr>Children := removeAll vid (Children p)\<rparr>))
                        (Parents v) (vertices d);
               st2 = fold (detach_child vid) (Children v) (tbl1, roots d)
           in (None,
               d\<lparr>vertices := filter (\<lambda>w. ID w \<noteq> vid) (fst st2),
                 roots := removeAll vid (snd st2)\<rparr>)))"

definition GetVertices :: "'d DAG \<Rightarrow> 'd Vertex list" where
  "GetVertices d = vertices d"

definition GetRoots :: "'d DAG \<Rightarrow> 'd Vertex list" where
  "GetRoots d = List.map_filter (lookup (vertices d)) (roots d)"

subsection \<open>Reachability along parent edges\<close>

text \<open>\<open>(v, p)\<close> is in \<open>parent_rel d\<close> when \<open>p\<close> is a key of the \<^verbatim>\<open>Parents\<close> of vertex \<open>v\<close>.\<close>

definition parent_rel :: "'d DAG \<Rightarrow> (string \<times> string) set" where
  "parent_rel d = {(ID v, p) | v p. v \<in> set (vertices d) \<and> p \<in> set (Parents v)}"

definition dag_acyclic :: "'d DAG \<Rightarrow> bool" where
  "dag_acyclic d = acyclic (parent_rel d)"

text \<open>The state of scenario S3 before the last call: vertices a, b, c and the edges a\<rightarrow>b, b\<rightarrow>c.\<close>

definition add_vertex_then :: "'d DAG \<Rightarrow> string \<Rightarrow> 'd \<Rightarrow> 'd DAG" where
  "add_vertex_then d vid dat = snd (DAG_AddVertex d vid dat)"

definition add_edge_then :: "'d DAG \<Rightarrow> string \<Rightarrow> string \<Rightarrow> 'd DAG" where
  "add_edge_then d p c = snd (AddEdge d p c)"

definition S3_dag :: "nat DAG" where
  "S3_dag =
     add_edge_then
       (add_vertex_then
          (add_edge_then (add_vertex_then (add_vertex_then NewDAG ''a'' 1) ''b'' 2) ''a'' ''b'')
          ''c'' 3)
       ''b'' ''c''"

section \<open>The consensus engine (src/consensus/avalanche.go)\<close>

text \<open>
  Go's \<^verbatim>\<open>int\<close> (64 bits) is \<^typ>\<open>int\<close> with the wrap-around written out where the
  source adds: \<^verbatim>\<open>currentCount + 1\<close> and \<^verbatim>\<open>preferCount++\<close> are \<open>wrap64\<close> of the
  sum. \<^verbatim>\<open>SampleTimeout\<close> is its number of nanoseconds.
\<close>

definition max_int :: int where
  "max_int = 2 ^ 63 - 1"

definition wrap64 :: "int \<Rightarrow> int" where
  "wrap64 x = (x + 2 ^ 63) mod 2 ^ 64 - 2 ^ 63"

record AvalancheParams =
  K :: int
  Alpha :: int
  BetaVirtuous :: int
  BetaRogue :: int
  ConcurrencyNum :: int
  BatchSize :: int
  MaxOutstanding :: int
  MaxSampleSize :: int
  SampleTimeout :: int

definition DefaultParams :: AvalancheParams where
  "DefaultParams =
     \<lparr>K = 10, Alpha = 8, BetaVirtuous = 20, BetaRogue = 30, ConcurrencyNum = 4,
      BatchSize = 10, MaxOutstanding = 1024, MaxSampleSize = 20, SampleTimeout = 1000000000\<rparr>"

text \<open>
  \<^verbatim>\<open>pending map[string]int\<close> and \<^verbatim>\<open>finalized map[string]bool\<close> are association
  lists; a read of a missing key gives Go's zero value.
\<close>

record 'd Avalanche =
  dag :: "'d DAG"
  params :: AvalancheParams
  pending :: "(string \<times> int) list"
  finalized :: "(string \<times> bool) list"

definition NewAvalanche :: "'d DAG \<Rightarrow> AvalancheParams \<Rightarrow> 'd Avalanche" where
  "NewAvalanche d ps = \<lparr>dag = d, params = ps, pending = [], finalized = []\<rparr>"

text \<open>\<^verbatim>\<open>a.pending[id]\<close> and \<^verbatim>\<open>a.finalized[id]\<close> as values.\<close>

definition pending_count :: "'d Avalanche \<Rightarrow> string \<Rightarrow> int" where
  "pending_count a vid = (case map_of (pending a) vid of None \<Rightarrow> 0 | Some c \<Rightarrow> c)"

definition IsFinalized :: "'d Avalanche \<Rightarrow> string \<Rightarrow> bool" where
  "IsFinalized a vid = (case map_of (finalized a) vid of None \<Rightarrow> False | Some b \<Rightarrow> b)"

definition IsPending :: "'d Avalanche \<Rightarrow> string \<Rightarrow> bool" where
  "IsPending a vid = (map_of (pending a) vid \<noteq> None)"

text \<open>
  The loop \<^verbatim>\<open>for _, pid := range parentIDs\<close> of the engine's \<^verbatim>\<open>AddVertex\<close>, with
  its rollback; the error of \<^verbatim>\<open>RemoveVertex\<close> is dropped as in the source.
\<close>

fun link_parents :: "'d DAG \<Rightarrow> string \<Rightarrow> string list \<Rightarrow> DAGError option \<times> 'd DAG" where
  "link_parents d vid [] = (None, d)"
| "link_parents d vid (pid # pids) =
     (case AddEdge d pid vid of
        (Some err, d') \<Rightarrow> (Some err, snd (RemoveVertex d' vid))
      | (None, d') \<Rightarrow> link_parents d' vid pids)"

text \<open>\<^verbatim>\<open>func (a *Avalanche) AddVertex(id, data, parentIDs)\<close>.\<close>

definition Avalanche_AddVertex ::
  "'d Avalanche \<Rightarrow> string \<Rightarrow> 'd \<Rightarrow> string list \<Rightarrow> (DAGError + string) \<times> 'd Avalanche" where
  "Avalanche_AddVertex a vid dat parentIDs =
     (case DAG_AddVertex (dag a) vid dat of
        (Inl err, d) \<Rightarrow> (Inl err, a\<lparr>dag := d\<rparr>)
      | (Inr vertex, d) \<Rightarrow>
          (case link_parents d vid parentIDs of
             (Some err, d') \<Rightarrow> (Inl err, a\<lparr>dag := d'\<rparr>)
           | (None, d') \<Rightarrow>
               (Inr vertex, a\<lparr>dag := d', pending := AList.update vid 0 (pending a)\<rparr>)))"

text \<open>
  \<^verbatim>\<open>crypto/rand\<close> is a source of numbers handed in by the caller: the draw
  \<^verbatim>\<open>rand.Int(rand.Reader, n)\<close> takes the next number modulo \<open>n\<close>, so every outcome
  below \<open>n\<close> is the draw of some source. The error of the draw, which the source
  drops, is not modelled.
\<close>

type_synonym rand = "nat \<Rightarrow> nat"

definition rand_Int :: "rand \<Rightarrow> nat \<Rightarrow> nat \<times> rand" where
  "rand_Int r n = (r 0 mod n, \<lambda>i. r (Suc i))"

definition zero_rand :: rand where
  "zero_rand = (\<lambda>i. 0)"

text \<open>
  The Fisher-Yates loop \<^verbatim>\<open>for i := len(samples) - 1; i > 0; i--\<close>, started at
  \<open>i = length samples - 1\<close>; both indexes of the swap are below the length.
\<close>

fun fisher_yates :: "nat \<Rightarrow> string list \<Rightarrow> rand \<Rightarrow> string list \<times> rand" where
  "fisher_yates 0 samples r = (samples, r)"
| "fisher_yates (Suc i) samples r =
     (case rand_Int r (Suc i + 1) of
        (j, r') \<Rightarrow> fisher_yates i (samples[Suc i := samples ! j, j := samples ! Suc i]) r')"

datatype panic = SliceBoundsOutOfRange | UncomparableType

text \<open>The candidate list of \<^verbatim>\<open>getSamples\<close>: the parents first, then the others.\<close>

definition candidates :: "'d Vertex \<Rightarrow> 'd Vertex list \<Rightarrow> string \<Rightarrow> string list" where
  "candidates vertex allVertices vid =
     Parents vertex @
     map ID (filter (\<lambda>v. ID v \<noteq> vid \<and> ID v \<notin> set (Parents vertex)) allVertices)"

text \<open>
  \<^verbatim>\<open>func (a *Avalanche) getSamples(id string, k int) []string\<close>. \<^verbatim>\<open>nil\<close> is the
  empty list; \<^verbatim>\<open>samples[:k]\<close> panics for a negative \<open>k\<close>.
\<close>

definition getSamples :: "'d Avalanche \<Rightarrow> string \<Rightarrow> int \<Rightarrow> rand \<Rightarrow> panic + (string list \<times> rand)" where
  "getSamples a vid k r =
     (let allVertices = GetVertices (dag a) in
      if int (length allVertices) < k then Inr ([], r)
      else
        (case DAG_GetVertex (dag a) vid of
           Inl err \<Rightarrow> Inr ([], r)
         | Inr vertex \<Rightarrow>
             (let cs = candidates vertex allVertices vid in
              if int (length cs) \<le> k then Inr (cs, r)
              else
                (case fisher_yates (length cs - 1) cs r of
                   (samples, r') \<Rightarrow>
                     if k < 0 then Inl SliceBoundsOutOfRange
                     else Inr (take (nat k) samples, r')))))"

text \<open>
  The closure \<^verbatim>\<open>checkParent\<close> of \<^verbatim>\<open>checkPreference\<close> is the search of
  \<^verbatim>\<open>wouldCreateCycle\<close> again, for \<^verbatim>\<open>targetID\<close>; it tests \<^verbatim>\<open>visited[pid]\<close> on
  the key, which is the \<^verbatim>\<open>ID\<close> of the vertex found under it.
\<close>

definition checkParent :: "'d Vertex list \<Rightarrow> string \<Rightarrow> 'd Vertex \<Rightarrow> bool" where
  "checkParent tbl targetID v = fst (dfs tbl targetID {} v)"

text \<open>\<^verbatim>\<open>func (a *Avalanche) checkPreference(sampleID, targetID string) bool\<close>.\<close>

definition checkPreference :: "'d Avalanche \<Rightarrow> string \<Rightarrow> string \<Rightarrow> rand \<Rightarrow> bool \<times> rand" where
  "checkPreference a sampleID targetID r =
     (case DAG_GetVertex (dag a) sampleID of
        Inl err \<Rightarrow> (False, r)
      | Inr sampleVertex \<Rightarrow>
          (case DAG_GetVertex (dag a) targetID of
             Inl err \<Rightarrow> (False, r)
           | Inr targetVertex \<Rightarrow>
               if Finalized targetVertex then (True, r)
               else if checkParent (vertices (dag a)) targetID sampleVertex then (True, r)
               else if Preferred sampleVertex then (True, r)
               else (case rand_Int r 100 of (x, r') \<Rightarrow> (x < 70, r'))))"

text \<open>
  The dynamic value of a payload \<^verbatim>\<open>Data interface{}\<close>, as far as Go's \<^verbatim>\<open>!=\<close> on
  interface values tells values apart:
  \<^item> \<open>Comparable x\<close>: a value of a comparable dynamic type on which \<^verbatim>\<open>==\<close> is equality
    (nil, a boolean, a string, a number that is not NaN); \<open>x\<close> stands for the dynamic
    type together with the value;
  \<^item> \<open>NaN\<close>: a floating-point NaN, which is unequal to every value, itself included;
  \<^item> \<open>Uncomparable t\<close>: a value of the dynamic type \<open>t\<close> that Go cannot compare (a
    slice, a map, a function, or a composite that holds one): \<^verbatim>\<open>!=\<close> on two values
    of the same such type panics, and values of different dynamic types are unequal.
  The handlers decode the payload from JSON, so a JSON object or array arrives as an
  uncomparable map or slice.
\<close>

datatype 'c payload = Comparable 'c | NaN | Uncomparable nat

fun go_neq :: "'c payload \<Rightarrow> 'c payload \<Rightarrow> panic + bool" where
  "go_neq (Uncomparable s) (Uncomparable t) = (if s = t then Inl UncomparableType else Inr True)"
| "go_neq (Comparable x) (Comparable y) = Inr (x \<noteq> y)"
| "go_neq p q = Inr True"

text \<open>\<^verbatim>\<open>func (a *Avalanche) areCompatible(v1, v2 *dag.Vertex) bool\<close>.\<close>

definition areCompatible :: "'c payload Vertex \<Rightarrow> 'c payload Vertex \<Rightarrow> panic + bool" where
  "areCompatible v1 v2 = go_neq (Data v1) (Data v2)"

text \<open>
  The loop of \<^verbatim>\<open>getConfidenceThreshold\<close> over \<^verbatim>\<open>GetVertices()\<close>, with its
  \<^verbatim>\<open>break\<close>; the result is \<^verbatim>\<open>isVirtuous\<close>. The test \<^verbatim>\<open>v.ID != other.ID\<close> comes
  first, so a vertex is not compared with itself.
\<close>

fun isVirtuous_loop :: "'c payload Vertex \<Rightarrow> 'c payload Vertex list \<Rightarrow> panic + bool" where
  "isVirtuous_loop v [] = Inr True"
| "isVirtuous_loop v (other # others) =
     (if ID v \<noteq> ID other then
        (case areCompatible v other of
           Inl p \<Rightarrow> Inl p
         | Inr compatible \<Rightarrow> if \<not> compatible then Inr False else isVirtuous_loop v others)
      else isVirtuous_loop v others)"

text \<open>\<^verbatim>\<open>func (a *Avalanche) getConfidenceThreshold(id string) int\<close>.\<close>

definition getConfidenceThreshold :: "'c payload Avalanche \<Rightarrow> string \<Rightarrow> panic + int" where
  "getConfidenceThreshold a vid =
     (case DAG_GetVertex (dag a) vid of
        Inl err \<Rightarrow> Inr (BetaRogue (params a))
      | Inr v \<Rightarrow>
          (case isVirtuous_loop v (GetVertices (dag a)) of
             Inl p \<Rightarrow> Inl p
           | Inr isVirtuous \<Rightarrow>
               Inr (if isVirtuous then BetaVirtuous (params a) else BetaRogue (params a))))"

text \<open>The loop of \<^verbatim>\<open>processVertex\<close> that counts the samples preferring the vertex.\<close>

fun count_preferences :: "'d Avalanche \<Rightarrow> string \<Rightarrow> string list \<Rightarrow> int \<Rightarrow> rand \<Rightarrow> int \<times> rand" where
  "count_preferences a vid [] preferCount r = (preferCount, r)"
| "count_preferences a vid (sampleID # samples) preferCount r =
     (case checkPreference a sampleID vid r of
        (b, r') \<Rightarrow>
          count_preferences a vid samples
            (if b then wrap64 (preferCount + 1) else preferCount) r')"

text \<open>The block of \<^verbatim>\<open>processVertex\<close> that finalizes a vertex.\<close>

definition finalize :: "'d Avalanche \<Rightarrow> string \<Rightarrow> 'd Avalanche" where
  "finalize a vid =
     (let a1 = a\<lparr>finalized := AList.update vid True (finalized a),
                pending := AList.delete vid (pending a)\<rparr>
      in case DAG_GetVertex (dag a1) vid of
           Inr v \<Rightarrow>
             a1\<lparr>dag := (dag a1)\<lparr>vertices :=
                   upd_vertex vid (\<lambda>w. w\<lparr>Finalized := True\<rparr>) (vertices (dag a1))\<rparr>\<rparr>
         | Inl err \<Rightarrow> a1)"

text \<open>\<^verbatim>\<open>func (a *Avalanche) processVertex(id string)\<close>.\<close>

definition processVertex ::
  "'c payload Avalanche \<Rightarrow> string \<Rightarrow> rand \<Rightarrow> panic + ('c payload Avalanche \<times> rand)" where
  "processVertex a vid r =
     (if IsFinalized a vid then Inr (a, r)
      else
        (let currentCount = pending_count a vid in
         case getSamples a vid (K (params a)) r of
           Inl p \<Rightarrow> Inl p
         | Inr (samples, r1) \<Rightarrow>
             if length samples = 0 then Inr (a, r1)
             else
               (case count_preferences a vid samples 0 r1 of
                  (preferCount, r2) \<Rightarrow>
                    if preferCount \<ge> Alpha (params a) then
                      (let a1 = a\<lparr>pending :=
                                  AList.update vid (wrap64 (currentCount + 1)) (pending a)\<rparr>
                       in case getConfidenceThreshold a1 vid of
                            Inl p \<Rightarrow> Inl p
                          | Inr threshold \<Rightarrow>
                              if pending_count a1 vid \<ge> threshold then Inr (finalize a1 vid, r2)
                              else Inr (a1, r2))
                    else Inr (a\<lparr>pending := AList.update vid 0 (pending a)\<rparr>, r2))))"

text \<open>
  \<^verbatim>\<open>func (a *Avalanche) consensusRound()\<close>: the snapshot of the keys of
  \<^verbatim>\<open>pending\<close>, then \<^verbatim>\<open>processVertex\<close> on each.
\<close>

fun process_all ::
  "'c payload Avalanche \<Rightarrow> string list \<Rightarrow> rand \<Rightarrow> panic + ('c payload Avalanche \<times> rand)" where
  "process_all a [] r = Inr (a, r)"
| "process_all a (vid # ids) r =
     (case processVertex a vid r of
        Inl p \<Rightarrow> Inl p
      | Inr (a', r') \<Rightarrow> process_all a' ids r')"

definition consensusRound ::
  "'c payload Avalanche \<Rightarrow> rand \<Rightarrow> panic + ('c payload Avalanche \<times> rand)" where
  "consensusRound a r = process_all a (map fst (pending a)) r"

section \<open>Invariants, runs and example states\<close>

text \<open>The conflict predicate in the words of the specification.\<close>

definition spec_conflicts :: "'d Vertex \<Rightarrow> 'd Vertex \<Rightarrow> bool" where
  "spec_conflicts v w = (ID v \<noteq> ID w \<and> Data v = Data w)"

text \<open>
  What the maps of a DAG built by its operations satisfy: the ids of the table are
  distinct, a key list has no duplicates, and every key of \<^verbatim>\<open>Parents\<close>,
  \<^verbatim>\<open>Children\<close> and \<^verbatim>\<open>roots\<close> is an id of the table.
\<close>

definition dag_inv :: "'d DAG \<Rightarrow> bool" where
  "dag_inv d =
     (distinct (map ID (vertices d)) \<and>
      (\<forall>v \<in> set (vertices d).
         distinct (Parents v) \<and> distinct (Children v) \<and>
         set (Parents v) \<subseteq> ID ` set (vertices d) \<and>
         set (Children v) \<subseteq> ID ` set (vertices d)) \<and>
      set (roots d) \<subseteq> ID ` set (vertices d))"

text \<open>A DAG of two unrelated vertices and an engine on it in which \<open>t\<close> is pending.\<close>

definition two_vertex_dag :: "nat payload DAG" where
  "two_vertex_dag =
     add_vertex_then (add_vertex_then NewDAG ''t'' (Comparable 10)) ''o'' (Comparable 20)"

definition two_vertex_engine :: "int \<Rightarrow> int \<Rightarrow> int \<Rightarrow> nat payload Avalanche" where
  "two_vertex_engine k alpha c =
     \<lparr>dag = two_vertex_dag, params = DefaultParams\<lparr>K := k, Alpha := alpha\<rparr>,
      pending = [(''t'', c)], finalized = []\<rparr>"

text \<open>Scenario S4: two vertices with the same payload.\<close>

definition S4_engine :: "string payload Avalanche" where
  "S4_engine =
     NewAvalanche
       (add_vertex_then (add_vertex_then NewDAG ''vX'' (Comparable ''T'')) ''vY'' (Comparable ''T''))
       DefaultParams"

text \<open>
  The consensus state is well-formed when no id is both pending and finalized and every
  id that is pending or finalized is in the vertex table of the DAG.
\<close>

definition consensus_wf :: "'d Avalanche \<Rightarrow> bool" where
  "consensus_wf a =
     ((\<forall>vid. \<not> (IsPending a vid \<and> IsFinalized a vid)) \<and>
      (\<forall>vid. IsPending a vid \<or> IsFinalized a vid \<longrightarrow> lookup (vertices (dag a)) vid \<noteq> None))"

text \<open>\<open>flagged d x\<close>: the DAG holds a vertex \<open>x\<close> whose \<^verbatim>\<open>Finalized\<close> field is true.\<close>

definition flagged :: "'d DAG \<Rightarrow> string \<Rightarrow> bool" where
  "flagged d x = (case lookup (vertices d) x of None \<Rightarrow> False | Some v \<Rightarrow> Finalized v)"

text \<open>What a later engine state has kept of an earlier one.\<close>

definition kept :: "'d Avalanche \<Rightarrow> 'd Avalanche \<Rightarrow> bool" where
  "kept a a' =
     ((\<forall>x. flagged (dag a) x \<longrightarrow> flagged (dag a') x) \<and>
      (\<forall>x. IsFinalized a x \<longrightarrow> IsFinalized a' x))"

text \<open>
  Sequences of engine operations: the three operations as a datatype, one step, and a
  run, which stops at the first panic.
\<close>

datatype 'd op =
    OpAddVertex string 'd "string list"
  | OpProcessVertex string rand
  | OpConsensusRound rand

fun step :: "'c payload Avalanche \<Rightarrow> 'c payload op \<Rightarrow> panic + 'c payload Avalanche" where
  "step a (OpAddVertex vid dat parentIDs) = Inr (snd (Avalanche_AddVertex a vid dat parentIDs))"
| "step a (OpProcessVertex vid r) =
     (case processVertex a vid r of Inl p \<Rightarrow> Inl p | Inr (a', r') \<Rightarrow> Inr a')"
| "step a (OpConsensusRound r) =
     (case consensusRound a r of Inl p \<Rightarrow> Inl p | Inr (a', r') \<Rightarrow> Inr a')"

fun run :: "'c payload Avalanche \<Rightarrow> 'c payload op list \<Rightarrow> panic + 'c payload Avalanche" where
  "run a [] = Inr a"
| "run a (x # xs) = (case step a x of Inl p \<Rightarrow> Inl p | Inr a' \<Rightarrow> run a' xs)"

text \<open>
  The confidence counters are bounded when the two thresholds are values of Go's
  \<^verbatim>\<open>int\<close> and each counter is 0 or lies strictly between 0 and the larger threshold.
\<close>

definition counters_bounded :: "'d Avalanche \<Rightarrow> bool" where
  "counters_bounded a =
     (BetaVirtuous (params a) \<le> max_int \<and> BetaRogue (params a) \<le> max_int \<and>
      (\<forall>vid c. map_of (pending a) vid = Some c \<longrightarrow>
         0 \<le> c \<and> (c = 0 \<or> c < max (BetaVirtuous (params a)) (BetaRogue (params a)))))"

text \<open>
  A payload of a comparable dynamic type (NaN is one); an engine state and an operation
  that hold only such payloads.
\<close>

definition comparable_payload :: "'c payload \<Rightarrow> bool" where
  "comparable_payload p = (case p of Uncomparable t \<Rightarrow> False | _ \<Rightarrow> True)"

definition payloads_comparable :: "'c payload Avalanche \<Rightarrow> bool" where
  "payloads_comparable a = list_all (\<lambda>v. comparable_payload (Data v)) (vertices (dag a))"

fun op_comparable :: "'c payload op \<Rightarrow> bool" where
  "op_comparable (OpAddVertex vid dat parentIDs) = comparable_payload dat"
| "op_comparable (OpProcessVertex vid r) = True"
| "op_comparable (OpConsensusRound r) = True"

text \<open>The fields of a vertex that no edge operation writes.\<close>

definition core :: "'d Vertex \<Rightarrow> string \<times> 'd \<times> bool \<times> int \<times> bool" where
  "core v = (ID v, Data v, Preferred v, Color v, Finalized v)"

text \<open>
  \<open>linked d0 vid dat L\<close> is the DAG \<open>d0\<close> after \<^verbatim>\<open>AddVertex(vid, dat)\<close> and after
  the edges from the parents \<open>L\<close> to \<open>vid\<close> have been stored.
\<close>

definition mark_child :: "string \<Rightarrow> string list \<Rightarrow> 'd Vertex \<Rightarrow> 'd Vertex" where
  "mark_child vid L v = (if ID v \<in> set L then v\<lparr>Children := List.insert vid (Children v)\<rparr> else v)"

definition linked :: "'d DAG \<Rightarrow> string \<Rightarrow> 'd \<Rightarrow> string list \<Rightarrow> 'd DAG" where
  "linked d0 vid dat L =
     \<lparr>vertices = map (mark_child vid L) (vertices d0) @ [(new_vertex vid dat)\<lparr>Parents := L\<rparr>],
      roots = (if L = [] then List.insert vid (roots d0) else removeAll vid (roots d0))\<rparr>"

text \<open>
  An engine on the DAG of S3, and the engine left by the round that finalizes the
  vertex \<open>t\<close> of the two-vertex engine.
\<close>

definition S3_engine :: "nat Avalanche" where
  "S3_engine = NewAvalanche S3_dag DefaultParams"

definition finalized_engine :: "nat payload Avalanche" where
  "finalized_engine =
     (case processVertex (two_vertex_engine 2 1 19) ''t'' zero_rand of
        Inr (a, r) \<Rightarrow> a
      | Inl p \<Rightarrow> two_vertex_engine 2 1 19)"

section \<open>Properties of the DAG store\<close>

lemma S3_dag_eq:
  "S3_dag =
     \<lparr>vertices =
        [\<lparr>ID = ''a'', Data = 1, Parents = [], Children = [''b''],
          Preferred = False, Color = 0, Finalized = False\<rparr>,
         \<lparr>ID = ''b'', Data = 2, Parents = [''a''], Children = [''c''],
          Preferred = False, Color = 0, Finalized = False\<rparr>,
         \<lparr>ID = ''c'', Data = 3, Parents = [''b''], Children = [],
          Preferred = False, Color = 0, Finalized = False\<rparr>],
      roots = [''a'']\<rparr>"
  by (simp add: S3_dag_def add_edge_then_def add_vertex_then_def NewDAG_def DAG_AddVertex_def
      AddEdge_def lookup_def new_vertex_def wouldCreateCycle_def upd_vertex_def)

text \<open>
  C1. In scenario S3 (edges a\<rightarrow>b and b\<rightarrow>c present) the call AddEdge(c, a) does not return
  WouldCreateCycle: it returns nil and stores the edge c\<rightarrow>a, after which a is its own
  ancestor. The search of \<^verbatim>\<open>wouldCreateCycle\<close> starts at the child and follows the
  child's parents, so it looks for the parent among the ancestors of the child, where
  its comment says it checks that the child is an ancestor of the parent. In the same
  state the edge a\<rightarrow>c, which closes no cycle, is the one rejected with WouldCreateCycle.
\<close>

theorem C1_AddEdge_S3_closes_cycle:
  "fst (AddEdge S3_dag ''c'' ''a'') = None \<and>
   (''a'', ''a'') \<in> (parent_rel (snd (AddEdge S3_dag ''c'' ''a'')))\<^sup>+ \<and>
   \<not> dag_acyclic (snd (AddEdge S3_dag ''c'' ''a'')) \<and>
   AddEdge S3_dag ''a'' ''c'' = (Some ErrWouldCreateCycle, S3_dag)"
proof -
  have fwd: "AddEdge S3_dag ''a'' ''c'' = (Some ErrWouldCreateCycle, S3_dag)"
    by (simp add: S3_dag_eq AddEdge_def lookup_def wouldCreateCycle_def)
  let ?d = "snd (AddEdge S3_dag ''c'' ''a'')"
  have r: "AddEdge S3_dag ''c'' ''a'' =
     (None,
      \<lparr>vertices =
        [\<lparr>ID = ''a'', Data = 1, Parents = [''c''], Children = [''b''],
          Preferred = False, Color = 0, Finalized = False\<rparr>,
         \<lparr>ID = ''b'', Data = 2, Parents = [''a''], Children = [''c''],
          Preferred = False, Color = 0, Finalized = False\<rparr>,
         \<lparr>ID = ''c'', Data = 3, Parents = [''b''], Children = [''a''],
          Preferred = False, Color = 0, Finalized = False\<rparr>],
      roots = []\<rparr>)"
    by (simp add: S3_dag_eq AddEdge_def lookup_def wouldCreateCycle_def upd_vertex_def)
  have ac: "(''a'', ''c'') \<in> parent_rel ?d"
    unfolding parent_rel_def r by force
  have cb: "(''c'', ''b'') \<in> parent_rel ?d"
    unfolding parent_rel_def r by force
  have ba: "(''b'', ''a'') \<in> parent_rel ?d"
    unfolding parent_rel_def r by force
  from ac cb ba have loop: "(''a'', ''a'') \<in> (parent_rel ?d)\<^sup>+"
    by (meson trancl.r_into_trancl trancl_trans)
  then have "\<not> dag_acyclic ?d"
    by (auto simp: dag_acyclic_def acyclic_def)
  with r loop fwd show ?thesis by simp
qed

text \<open>
  C10. For every id present in the DAG, AddEdge(id, id) returns WouldCreateCycle and the
  DAG it leaves is the one it was given: no edge is stored, the parents and children of
  the vertex and the roots are as before.
\<close>

theorem C10_AddEdge_self:
  "lookup (vertices d) vid = Some v \<Longrightarrow> AddEdge d vid vid = (Some ErrWouldCreateCycle, d)"
  by (simp add: AddEdge_def wouldCreateCycle_def)

theorem C10_AddEdge_self_witness:
  "lookup (vertices S3_dag) ''b'' =
     Some \<lparr>ID = ''b'', Data = 2, Parents = [''a''], Children = [''c''],
           Preferred = False, Color = 0, Finalized = False\<rparr> \<and>
   AddEdge S3_dag ''b'' ''b'' = (Some ErrWouldCreateCycle, S3_dag)"
proof -
  have h: "lookup (vertices S3_dag) ''b'' =
     Some \<lparr>ID = ''b'', Data = 2, Parents = [''a''], Children = [''c''],
           Preferred = False, Color = 0, Finalized = False\<rparr>"
    by (simp add: S3_dag_eq lookup_def)
  from h C10_AddEdge_self [OF h] show ?thesis by simp
qed

text \<open>
  C7. For every DAG and every id already in it, AddVertex(id, data') returns
  AlreadyExists for any data' and returns the DAG it was given: the stored vertex keeps
  its data, parents and children, and the vertex table and the roots are unchanged.
\<close>

theorem C7_AddVertex_duplicate:
  "lookup (vertices d) vid = Some v \<Longrightarrow>
     DAG_AddVertex d vid dat' = (Inl ErrVertexAlreadyExists, d) \<and>
     lookup (vertices (snd (DAG_AddVertex d vid dat'))) vid = Some v"
  by (simp add: DAG_AddVertex_def)

theorem C7_AddVertex_duplicate_witness:
  "lookup (vertices S3_dag) ''a'' =
     Some \<lparr>ID = ''a'', Data = 1, Parents = [], Children = [''b''],
           Preferred = False, Color = 0, Finalized = False\<rparr> \<and>
   DAG_AddVertex S3_dag ''a'' 7 = (Inl ErrVertexAlreadyExists, S3_dag) \<and>
   lookup (vertices (snd (DAG_AddVertex S3_dag ''a'' 7))) ''a'' =
     Some \<lparr>ID = ''a'', Data = 1, Parents = [], Children = [''b''],
           Preferred = False, Color = 0, Finalized = False\<rparr>"
proof -
  have h: "lookup (vertices S3_dag) ''a'' =
     Some \<lparr>ID = ''a'', Data = 1, Parents = [], Children = [''b''],
           Preferred = False, Color = 0, Finalized = False\<rparr>"
    by (simp add: S3_dag_eq lookup_def)
  from h C7_AddVertex_duplicate [OF h, of 7] show ?thesis by simp
qed

section \<open>Properties of the consensus engine\<close>

subsection \<open>Evaluation of the example states\<close>

lemma zero_rand_shift: "(\<lambda>i. zero_rand (Suc i)) = zero_rand"
  by (simp add: zero_rand_def)

lemma two_vertex_dag_eq:
  "two_vertex_dag =
     \<lparr>vertices = [new_vertex ''t'' (Comparable 10), new_vertex ''o'' (Comparable 20)], roots = [''o'', ''t'']\<rparr>"
  by (simp add: two_vertex_dag_def add_vertex_then_def DAG_AddVertex_def NewDAG_def lookup_def
      new_vertex_def)

lemma two_vertex_lookup:
  "lookup (vertices (dag (two_vertex_engine k al c))) ''t'' = Some (new_vertex ''t'' (Comparable 10))"
  by (simp add: two_vertex_engine_def two_vertex_dag_eq lookup_def new_vertex_def)

lemma two_vertex_fields:
  "K (params (two_vertex_engine k al c)) = k"
  "Alpha (params (two_vertex_engine k al c)) = al"
  "IsFinalized (two_vertex_engine k al c) ''t'' = False"
  "map_of (pending (two_vertex_engine k al c)) ''t'' = Some c"
  "pending (two_vertex_engine k al c) = [(''t'', c)]"
  "finalized (two_vertex_engine k al c) = []"
  "length (GetVertices (dag (two_vertex_engine k al c))) = 2"
  by (simp_all add: two_vertex_engine_def DefaultParams_def IsFinalized_def two_vertex_dag_eq
      GetVertices_def)

lemma two_vertex_candidates:
  "candidates (new_vertex ''t'' (Comparable 10)) (GetVertices (dag (two_vertex_engine k al c))) ''t'' = [''o'']"
  by (simp add: two_vertex_engine_def two_vertex_dag_eq GetVertices_def candidates_def
      new_vertex_def)

lemma two_vertex_payloads: "payloads_comparable (two_vertex_engine k al c)"
  by (simp add: payloads_comparable_def two_vertex_engine_def two_vertex_dag_eq new_vertex_def
      comparable_payload_def)

lemma two_vertex_dag_inv: "dag_inv (dag (two_vertex_engine k al c))"
  by (simp add: dag_inv_def two_vertex_engine_def two_vertex_dag_eq new_vertex_def)

lemma two_vertex_samples_K2:
  "getSamples (two_vertex_engine 2 al c) ''t'' 2 zero_rand = Inr ([''o''], zero_rand)"
  by (simp add: getSamples_def two_vertex_fields two_vertex_candidates DAG_GetVertex_def
      two_vertex_lookup Let_def)

lemma two_vertex_samples_K3:
  "getSamples (two_vertex_engine 3 al c) ''t'' 3 zero_rand = Inr ([], zero_rand)"
  by (simp add: getSamples_def two_vertex_fields)

lemma two_vertex_count:
  "count_preferences (two_vertex_engine k al c) ''t'' [''o''] 0 zero_rand = (1, zero_rand)"
  by (simp add: two_vertex_engine_def checkPreference_def DAG_GetVertex_def two_vertex_dag_eq
      lookup_def new_vertex_def checkParent_def rand_Int_def zero_rand_shift)
     (simp add: zero_rand_def wrap64_def)

lemma two_vertex_threshold: "getConfidenceThreshold (two_vertex_engine k al c) ''t'' = Inr 20"
  by (simp add: getConfidenceThreshold_def two_vertex_engine_def DAG_GetVertex_def
      two_vertex_dag_eq lookup_def new_vertex_def GetVertices_def areCompatible_def
      DefaultParams_def)

lemma wrap64_id: "- (2 ^ 63) \<le> x \<Longrightarrow> x \<le> max_int \<Longrightarrow> wrap64 x = x"
  by (simp add: wrap64_def max_int_def)

subsection \<open>Helper lemmas\<close>

lemma lookup_None_iff: "lookup tbl k = None \<longleftrightarrow> k \<notin> ID ` set tbl"
  by (auto simp: lookup_def find_None_iff)

lemma lookup_upd_vertex:
  "(\<And>w. ID (f w) = ID w) \<Longrightarrow>
     lookup (upd_vertex k f tbl) x = map_option (\<lambda>w. if ID w = k then f w else w) (lookup tbl x)"
  by (induction tbl) (auto simp: lookup_def upd_vertex_def)

lemma getSamples_nonempty_lookup:
  "getSamples a vid k r = Inr (samples, r1) \<Longrightarrow> samples \<noteq> [] \<Longrightarrow>
     \<exists>v. lookup (vertices (dag a)) vid = Some v"
  by (auto simp: getSamples_def DAG_GetVertex_def Let_def split: if_splits option.splits)

lemma threshold_pending_update [simp]:
  "getConfidenceThreshold (a\<lparr>pending := p\<rparr>) vid = getConfidenceThreshold a vid"
  by (simp add: getConfidenceThreshold_def split: sum.splits)

lemma isVirtuous_loop_Comparable:
  "Data v = Comparable x \<Longrightarrow>
     isVirtuous_loop v others = Inr (\<not> (\<exists>w \<in> set others. spec_conflicts v w))"
proof (induction others)
  case Nil
  then show ?case by simp
next
  case (Cons other others)
  then show ?case
    by (cases "Data other") (auto simp: areCompatible_def spec_conflicts_def)
qed

lemma isVirtuous_loop_no_panic:
  "comparable_payload (Data v) \<Longrightarrow> \<exists>b. isVirtuous_loop v others = Inr b"
proof (induction others)
  case Nil
  then show ?case by auto
next
  case (Cons other others)
  then show ?case
    by (cases "Data v"; cases "Data other")
       (auto simp: areCompatible_def comparable_payload_def)
qed

subsection \<open>The threshold\<close>

text \<open>
  C6. For every vertex id present in the DAG whose payload is a value on which Go's
  equality is equality (the data model's comparable payload), the finalization
  threshold is BetaRogue when some vertex of the DAG conflicts with it and BetaVirtuous
  when none does, where v conflicts with w iff their ids differ and their data are
  equal. The payloads of the other vertices are not restricted.
\<close>

theorem C6_threshold:
  "lookup (vertices (dag a)) vid = Some v \<Longrightarrow> Data v = Comparable x \<Longrightarrow>
     getConfidenceThreshold a vid =
       Inr (if \<exists>w \<in> set (vertices (dag a)). spec_conflicts v w then BetaRogue (params a)
            else BetaVirtuous (params a))"
  by (simp add: getConfidenceThreshold_def DAG_GetVertex_def GetVertices_def
      isVirtuous_loop_Comparable)

theorem C6_threshold_witness:
  "lookup (vertices (dag S4_engine)) ''vX'' = Some (new_vertex ''vX'' (Comparable ''T'')) \<and>
   Data (new_vertex ''vX'' (Comparable ''T'')) = Comparable ''T'' \<and>
   spec_conflicts (new_vertex ''vX'' (Comparable ''T'')) (new_vertex ''vY'' (Comparable ''T'')) \<and>
   getConfidenceThreshold S4_engine ''vX'' = Inr 30 \<and>
   lookup (vertices (dag (two_vertex_engine 2 2 5))) ''t'' = Some (new_vertex ''t'' (Comparable 10)) \<and>
   \<not> spec_conflicts (new_vertex ''t'' (Comparable 10)) (new_vertex ''o'' (Comparable (20::nat))) \<and>
   getConfidenceThreshold (two_vertex_engine 2 2 5) ''t'' = Inr 20"
proof -
  have d4: "vertices (dag S4_engine) =
      [new_vertex ''vX'' (Comparable ''T''), new_vertex ''vY'' (Comparable ''T'')]"
    by (simp add: S4_engine_def NewAvalanche_def add_vertex_then_def DAG_AddVertex_def NewDAG_def
        lookup_def new_vertex_def)
  have p4: "BetaRogue (params S4_engine) = 30" "BetaVirtuous (params S4_engine) = 20"
    by (simp_all add: S4_engine_def NewAvalanche_def DefaultParams_def)
  have h4: "lookup (vertices (dag S4_engine)) ''vX'' = Some (new_vertex ''vX'' (Comparable ''T''))"
    by (simp add: d4 lookup_def new_vertex_def)
  have x4: "Data (new_vertex ''vX'' (Comparable ''T'')) = Comparable ''T''"
    by (simp add: new_vertex_def)
  have c4: "spec_conflicts (new_vertex ''vX'' (Comparable ''T'')) (new_vertex ''vY'' (Comparable ''T''))"
    by (simp add: spec_conflicts_def new_vertex_def)
  have t4: "getConfidenceThreshold S4_engine ''vX'' = Inr 30"
    using C6_threshold [OF h4 x4] c4 by (simp add: d4 p4)
  have d2: "vertices (dag (two_vertex_engine 2 2 5)) =
      [new_vertex ''t'' (Comparable 10), new_vertex ''o'' (Comparable 20)]"
    by (simp add: two_vertex_engine_def two_vertex_dag_eq)
  have p2: "BetaVirtuous (params (two_vertex_engine 2 2 5)) = 20"
    by (simp add: two_vertex_engine_def DefaultParams_def)
  have x2: "Data (new_vertex ''t'' (Comparable (10::nat))) = Comparable 10"
    by (simp add: new_vertex_def)
  have c2: "\<not> spec_conflicts (new_vertex ''t'' (Comparable 10)) (new_vertex ''o'' (Comparable (20::nat)))"
       "\<not> spec_conflicts (new_vertex ''t'' (Comparable 10)) (new_vertex ''t'' (Comparable (10::nat)))"
    by (simp_all add: spec_conflicts_def new_vertex_def)
  have t2: "getConfidenceThreshold (two_vertex_engine 2 2 5) ''t'' = Inr 20"
    using C6_threshold [OF two_vertex_lookup x2, of 2 2 5] c2 by (simp add: d2 p2)
  from h4 x4 c4 t4 two_vertex_lookup c2 t2 show ?thesis by simp
qed

text \<open>
  Outside the comparable payloads the threshold is not the one of the conflict
  predicate: two vertices that both hold a map make the comparison panic, and two
  vertices that both hold NaN are compatible.
\<close>

lemma threshold_uncomparable_panics:
  "getConfidenceThreshold
     (NewAvalanche
        (add_vertex_then (add_vertex_then NewDAG ''p'' (Uncomparable 0)) ''q'' (Uncomparable 0))
        DefaultParams) ''p'' = Inl UncomparableType"
  by (simp add: getConfidenceThreshold_def NewAvalanche_def add_vertex_then_def DAG_AddVertex_def
      NewDAG_def DAG_GetVertex_def GetVertices_def lookup_def new_vertex_def areCompatible_def)

lemma threshold_NaN_virtuous:
  "getConfidenceThreshold
     (NewAvalanche (add_vertex_then (add_vertex_then NewDAG ''p'' NaN) ''q'' NaN) DefaultParams)
     ''p'' = Inr 20"
  by (simp add: getConfidenceThreshold_def NewAvalanche_def add_vertex_then_def DAG_AddVertex_def
      NewDAG_def DAG_GetVertex_def GetVertices_def lookup_def new_vertex_def areCompatible_def
      DefaultParams_def)

subsection \<open>One round on one vertex\<close>

text \<open>
  C3. For a pending vertex that is not finalized, whose confidence c is not negative and
  below the largest \<^verbatim>\<open>int\<close> (so that c + 1 is an \<^verbatim>\<open>int\<close>), and whose round reaches
  the count with a non-empty sample list: if fewer than Alpha samples approve, the
  confidence becomes 0; if at least Alpha approve and the threshold of the vertex is t
  (its computation does not panic), the confidence becomes c + 1 when that is below t,
  and when c + 1 reaches t the id leaves pending, is finalized and the vertex of the
  DAG has its flag set. Whatever the round does, the confidence left in pending is at
  most c + 1.
\<close>

theorem C3_processVertex_counter:
  assumes pend: "map_of (pending a) vid = Some c" and nonneg: "0 \<le> c" and rep: "c < max_int"
    and notfin: "\<not> IsFinalized a vid"
    and samp: "getSamples a vid (K (params a)) r = Inr (samples, r1)" and ne: "samples \<noteq> []"
    and cnt: "count_preferences a vid samples 0 r1 = (approve, r2)"
  shows "(approve < Alpha (params a) \<longrightarrow>
           (\<exists>a'. processVertex a vid r = Inr (a', r2) \<and> map_of (pending a') vid = Some 0)) \<and>
         (Alpha (params a) \<le> approve \<longrightarrow>
           (\<forall>t. getConfidenceThreshold a vid = Inr t \<longrightarrow>
              (\<exists>a'. processVertex a vid r = Inr (a', r2) \<and>
                 (c + 1 < t \<longrightarrow> map_of (pending a') vid = Some (c + 1)) \<and>
                 (t \<le> c + 1 \<longrightarrow>
                    map_of (pending a') vid = None \<and> IsFinalized a' vid \<and>
                    (\<exists>v'. lookup (vertices (dag a')) vid = Some v' \<and> Finalized v')) \<and>
                 (\<forall>c'. map_of (pending a') vid = Some c' \<longrightarrow> c' \<le> c + 1))))"
proof (intro conjI impI allI)
  assume lt: "approve < Alpha (params a)"
  then have "processVertex a vid r = Inr (a\<lparr>pending := AList.update vid 0 (pending a)\<rparr>, r2)"
    using notfin samp ne cnt by (simp add: processVertex_def)
  then show "\<exists>a'. processVertex a vid r = Inr (a', r2) \<and> map_of (pending a') vid = Some 0"
    by (simp add: update_conv')
next
  fix t
  assume ge: "Alpha (params a) \<le> approve" and thr: "getConfidenceThreshold a vid = Inr t"
  from getSamples_nonempty_lookup[OF samp ne] obtain v where v: "lookup (vertices (dag a)) vid = Some v"
    by blast
  have pc: "pending_count a vid = c" using pend by (simp add: pending_count_def)
  have w: "wrap64 (c + 1) = c + 1"
    using nonneg rep by (intro wrap64_id) (simp_all add: max_int_def)
  let ?a1 = "a\<lparr>pending := AList.update vid (c + 1) (pending a)\<rparr>"
  have pc1: "pending_count ?a1 vid = c + 1" by (simp add: pending_count_def update_conv')
  show "\<exists>a'. processVertex a vid r = Inr (a', r2) \<and>
      (c + 1 < t \<longrightarrow> map_of (pending a') vid = Some (c + 1)) \<and>
      (t \<le> c + 1 \<longrightarrow>
         map_of (pending a') vid = None \<and> IsFinalized a' vid \<and>
         (\<exists>v'. lookup (vertices (dag a')) vid = Some v' \<and> Finalized v')) \<and>
      (\<forall>c'. map_of (pending a') vid = Some c' \<longrightarrow> c' \<le> c + 1)"
  proof (cases "t \<le> c + 1")
    case False
    then have "processVertex a vid r = Inr (?a1, r2)"
      using ge notfin samp ne cnt pc pc1 w thr by (simp add: processVertex_def Let_def)
    with False show ?thesis by (simp add: update_conv')
  next
    case True
    then have res: "processVertex a vid r = Inr (finalize ?a1 vid, r2)"
      using ge notfin samp ne cnt pc pc1 w thr by (simp add: processVertex_def Let_def)
    have f1: "map_of (pending (finalize ?a1 vid)) vid = None"
      using v by (simp add: finalize_def DAG_GetVertex_def delete_conv')
    have f2: "IsFinalized (finalize ?a1 vid) vid"
      using v by (simp add: finalize_def DAG_GetVertex_def IsFinalized_def update_conv')
    have f3: "\<exists>v'. lookup (vertices (dag (finalize ?a1 vid))) vid = Some v' \<and> Finalized v'"
      using v lookup_Some_ID[OF v] by (simp add: finalize_def DAG_GetVertex_def lookup_upd_vertex)
    from res f1 f2 f3 True show ?thesis by simp
  qed
qed

theorem C3_processVertex_counter_witness:
  "map_of (pending (two_vertex_engine 2 2 5)) ''t'' = Some 5 \<and>
   (5::int) < max_int \<and>
   \<not> IsFinalized (two_vertex_engine 2 2 5) ''t'' \<and>
   getSamples (two_vertex_engine 2 2 5) ''t'' (K (params (two_vertex_engine 2 2 5))) zero_rand =
     Inr ([''o''], zero_rand) \<and>
   count_preferences (two_vertex_engine 2 2 5) ''t'' [''o''] 0 zero_rand = (1, zero_rand) \<and>
   getConfidenceThreshold (two_vertex_engine 2 1 5) ''t'' = Inr 20 \<and>
   (\<exists>a'. processVertex (two_vertex_engine 2 2 5) ''t'' zero_rand = Inr (a', zero_rand) \<and>
      map_of (pending a') ''t'' = Some 0) \<and>
   (\<exists>a'. processVertex (two_vertex_engine 2 1 5) ''t'' zero_rand = Inr (a', zero_rand) \<and>
      map_of (pending a') ''t'' = Some 6) \<and>
   (\<exists>a'. processVertex (two_vertex_engine 2 1 19) ''t'' zero_rand = Inr (a', zero_rand) \<and>
      map_of (pending a') ''t'' = None \<and> IsFinalized a' ''t'' \<and>
      (\<exists>v'. lookup (vertices (dag a')) ''t'' = Some v' \<and> Finalized v'))"
proof -
  have s: "\<And>al c. getSamples (two_vertex_engine 2 al c) ''t''
      (K (params (two_vertex_engine 2 al c))) zero_rand = Inr ([''o''], zero_rand)"
    by (simp add: two_vertex_fields two_vertex_samples_K2)
  have ne: "[''o''] \<noteq> []" by simp
  have m5: "(5::int) < max_int" and m19: "(19::int) < max_int" by (simp_all add: max_int_def)
  have n5: "(0::int) \<le> 5" and n19: "(0::int) \<le> 19" by simp_all
  have nf: "\<And>al c. \<not> IsFinalized (two_vertex_engine 2 al c) ''t''"
    by (simp add: two_vertex_fields)
  have r1: "\<exists>a'. processVertex (two_vertex_engine 2 2 5) ''t'' zero_rand = Inr (a', zero_rand) \<and>
      map_of (pending a') ''t'' = Some 0"
    using C3_processVertex_counter [OF two_vertex_fields(4) n5 m5 nf s ne two_vertex_count, of 2]
    by (simp add: two_vertex_fields)
  have r2: "\<exists>a'. processVertex (two_vertex_engine 2 1 5) ''t'' zero_rand = Inr (a', zero_rand) \<and>
      map_of (pending a') ''t'' = Some 6"
    using C3_processVertex_counter [OF two_vertex_fields(4) n5 m5 nf s ne two_vertex_count, of 1]
    by (auto simp add: two_vertex_fields two_vertex_threshold)
  have r3: "\<exists>a'. processVertex (two_vertex_engine 2 1 19) ''t'' zero_rand = Inr (a', zero_rand) \<and>
      map_of (pending a') ''t'' = None \<and> IsFinalized a' ''t'' \<and>
      (\<exists>v'. lookup (vertices (dag a')) ''t'' = Some v' \<and> Finalized v')"
    using C3_processVertex_counter [OF two_vertex_fields(4) n19 m19 nf s ne two_vertex_count, of 1]
    by (auto simp add: two_vertex_fields two_vertex_threshold)
  from r1 r2 r3 s two_vertex_count m5 two_vertex_threshold show ?thesis
    by (simp add: two_vertex_fields)
qed

text \<open>
  C5. As stated the claim fails: with K = 2 and a DAG of two vertices the sampler
  returns one id, fewer than K, and the round is evaluated on it; with Alpha = 2 the
  confidence 5 of the vertex is reset to 0.
\<close>

theorem C5_short_sample_counterexample:
  "getSamples (two_vertex_engine 2 2 5) ''t'' (K (params (two_vertex_engine 2 2 5))) zero_rand =
     Inr ([''o''], zero_rand) \<and>
   int (length [''o'']) < K (params (two_vertex_engine 2 2 5)) \<and>
   map_of (pending (two_vertex_engine 2 2 5)) ''t'' = Some 5 \<and>
   processVertex (two_vertex_engine 2 2 5) ''t'' zero_rand =
     Inr ((two_vertex_engine 2 2 5)\<lparr>pending := [(''t'', 0)]\<rparr>, zero_rand)"
  by (simp add: processVertex_def two_vertex_samples_K2 two_vertex_fields two_vertex_count
      pending_count_def del: count_preferences.simps)

text \<open>
  C5, amended. If the sampler returns no sample id for a vertex in a round,
  processVertex skips the vertex: it returns the engine state it was given, so the
  confidence counter is neither incremented nor reset.
\<close>

theorem C5_processVertex_skip:
  "getSamples a vid (K (params a)) r = Inr ([], r1) \<Longrightarrow>
     \<exists>r'. processVertex a vid r = Inr (a, r')"
  by (simp add: processVertex_def)


theorem C5_processVertex_skip_witness:
  "getSamples (two_vertex_engine 3 2 5) ''t'' (K (params (two_vertex_engine 3 2 5))) zero_rand =
     Inr ([], zero_rand) \<and>
   (\<exists>r'. processVertex (two_vertex_engine 3 2 5) ''t'' zero_rand =
      Inr (two_vertex_engine 3 2 5, r'))"
proof -
  have h: "getSamples (two_vertex_engine 3 2 5) ''t'' (K (params (two_vertex_engine 3 2 5)))
      zero_rand = Inr ([], zero_rand)"
    by (simp add: two_vertex_fields two_vertex_samples_K3)
  from h C5_processVertex_skip [OF h] show ?thesis by simp
qed

subsection \<open>The sampler\<close>

lemma fisher_yates_perm:
  "n < length xs \<Longrightarrow>
     length (fst (fisher_yates n xs r)) = length xs \<and>
     set (fst (fisher_yates n xs r)) = set xs \<and>
     distinct (fst (fisher_yates n xs r)) = distinct xs"
proof (induction n arbitrary: xs r)
  case 0
  then show ?case by simp
next
  case (Suc n)
  let ?j = "r 0 mod (Suc n + 1)"
  have j: "?j < length xs" using Suc.prems
  proof -
    have "?j < Suc n + 1" by (rule mod_less_divisor) simp
    with Suc.prems show ?thesis by linarith
  qed
  let ?xs = "xs[Suc n := xs ! ?j, ?j := xs ! Suc n]"
  have "n < length ?xs" using Suc.prems by simp
  from Suc.IH[OF this, of "\<lambda>i. r (Suc i)"] j Suc.prems
  show ?case by (simp add: rand_Int_def distinct_swap)
qed


lemma candidates_distinct:
  "distinct (map ID allVertices) \<Longrightarrow> distinct (Parents vertex) \<Longrightarrow>
     distinct (candidates vertex allVertices vid)"
  by (auto simp: candidates_def distinct_map_filter)

lemma candidates_subset:
  "set (Parents vertex) \<subseteq> ID ` set allVertices \<Longrightarrow>
     set (candidates vertex allVertices vid) \<subseteq> ID ` set allVertices"
  by (auto simp: candidates_def)

lemma distinct_subset_length:
  "distinct xs \<Longrightarrow> set xs \<subseteq> f ` set ys \<Longrightarrow> length xs \<le> length ys"
proof -
  assume d: "distinct xs" and s: "set xs \<subseteq> f ` set ys"
  have "length xs = card (set xs)" using d by (simp add: distinct_card)
  also have "\<dots> \<le> card (f ` set ys)" using s by (simp add: card_mono)
  also have "\<dots> \<le> card (set ys)" by (simp add: card_image_le)
  also have "\<dots> \<le> length ys" by (rule card_length)
  finally show ?thesis .
qed

text \<open>
  C4. As stated the claim fails in its last part: with K = 2 and a DAG of two vertices
  one candidate is available, fewer than K, and the sampler returns it.
\<close>

theorem C4_fewer_candidates_counterexample:
  "lookup (vertices (dag (two_vertex_engine 2 2 5))) ''t'' = Some (new_vertex ''t'' (Comparable 10)) \<and>
   int (length (candidates (new_vertex ''t'' (Comparable 10))
      (GetVertices (dag (two_vertex_engine 2 2 5))) ''t'')) < 2 \<and>
   getSamples (two_vertex_engine 2 2 5) ''t'' 2 zero_rand = Inr ([''o''], zero_rand) \<and>
   [''o''] \<noteq> []"
  by (simp add: two_vertex_lookup two_vertex_candidates two_vertex_samples_K2)

text \<open>
  C4, amended. For every target id present in a DAG that satisfies the invariant of its
  maps and every K > 0: if the DAG holds fewer than K vertices the sampler returns the
  empty sequence; if at least K candidate ids are available (the parents first, the
  target left out) it returns exactly K distinct candidates; and if the DAG holds at
  least K vertices but fewer than K candidates are available it returns all the
  candidates.
\<close>

theorem C4_getSamples:
  assumes v: "lookup (vertices (dag a)) vid = Some vertex" and k: "0 < k"
    and inv: "dag_inv (dag a)"
  shows "(int (length (GetVertices (dag a))) < k \<longrightarrow> getSamples a vid k r = Inr ([], r)) \<and>
         (k \<le> int (length (candidates vertex (GetVertices (dag a)) vid)) \<longrightarrow>
            (\<exists>s r'. getSamples a vid k r = Inr (s, r') \<and> int (length s) = k \<and> distinct s \<and>
               set s \<subseteq> set (candidates vertex (GetVertices (dag a)) vid))) \<and>
         (k \<le> int (length (GetVertices (dag a))) \<and>
          int (length (candidates vertex (GetVertices (dag a)) vid)) < k \<longrightarrow>
            getSamples a vid k r = Inr (candidates vertex (GetVertices (dag a)) vid, r))"
proof -
  let ?all = "GetVertices (dag a)"
  let ?cs = "candidates vertex ?all vid"
  have vin: "vertex \<in> set (vertices (dag a))" using lookup_Some_ID[OF v] by simp
  have dcs: "distinct ?cs"
    using inv vin by (intro candidates_distinct) (auto simp: dag_inv_def GetVertices_def)
  have "set ?cs \<subseteq> ID ` set ?all"
    using inv vin by (intro candidates_subset) (auto simp: dag_inv_def GetVertices_def)
  with dcs have len: "length ?cs \<le> length ?all" by (rule distinct_subset_length)
  have gv: "DAG_GetVertex (dag a) vid = Inr vertex" using v by (simp add: DAG_GetVertex_def)
  have p1: "int (length ?all) < k \<longrightarrow> getSamples a vid k r = Inr ([], r)"
    by (simp add: getSamples_def)
  have p3: "k \<le> int (length ?all) \<and> int (length ?cs) < k \<longrightarrow> getSamples a vid k r = Inr (?cs, r)"
    using gv by (simp add: getSamples_def Let_def)
  have p2: "k \<le> int (length ?cs) \<longrightarrow>
      (\<exists>s r'. getSamples a vid k r = Inr (s, r') \<and> int (length s) = k \<and> distinct s \<and> set s \<subseteq> set ?cs)"
  proof
    assume kc: "k \<le> int (length ?cs)"
    with len have ka: "\<not> int (length ?all) < k" by linarith
    show "\<exists>s r'. getSamples a vid k r = Inr (s, r') \<and> int (length s) = k \<and> distinct s \<and> set s \<subseteq> set ?cs"
    proof (cases "int (length ?cs) \<le> k")
      case True
      with kc have "int (length ?cs) = k" by simp
      moreover have "getSamples a vid k r = Inr (?cs, r)"
        using gv ka True by (simp add: getSamples_def Let_def)
      ultimately show ?thesis using dcs by auto
    next
      case False
      obtain s r' where fy: "fisher_yates (length ?cs - 1) ?cs r = (s, r')" by force
      from False k have "length ?cs - 1 < length ?cs" by linarith
      from fisher_yates_perm[OF this, of r] fy dcs
      have s: "length s = length ?cs" "set s = set ?cs" "distinct s" by simp_all
      have res: "getSamples a vid k r = Inr (take (nat k) s, r')"
        using gv ka False fy k by (simp add: getSamples_def Let_def)
      have "int (length (take (nat k) s)) = k" using s(1) kc k by simp
      moreover have "distinct (take (nat k) s)" using s(3) by simp
      moreover have "set (take (nat k) s) \<subseteq> set ?cs" using s(2) set_take_subset by fastforce
      ultimately show ?thesis using res by blast
    qed
  qed
  from p1 p2 p3 show ?thesis by blast
qed


theorem C4_getSamples_witness:
  "lookup (vertices (dag (two_vertex_engine 2 2 5))) ''t'' = Some (new_vertex ''t'' (Comparable 10)) \<and>
   dag_inv (dag (two_vertex_engine 2 2 5)) \<and>
   getSamples (two_vertex_engine 2 2 5) ''t'' 3 zero_rand = Inr ([], zero_rand) \<and>
   (\<exists>s r'. getSamples (two_vertex_engine 2 2 5) ''t'' 1 zero_rand = Inr (s, r') \<and>
      int (length s) = 1 \<and> distinct s \<and> set s \<subseteq> set [''o'']) \<and>
   getSamples (two_vertex_engine 2 2 5) ''t'' 2 zero_rand = Inr ([''o''], zero_rand)"
proof -
  let ?E = "two_vertex_engine 2 2 5"
  note h = two_vertex_lookup [of 2 2 5]
  note i = two_vertex_dag_inv [of 2 2 5]
  have k3: "(0::int) < 3" and k1: "(0::int) < 1" and k2: "(0::int) < 2" by simp_all
  have a: "getSamples ?E ''t'' 3 zero_rand = Inr ([], zero_rand)"
    using C4_getSamples [OF h k3 i, of zero_rand] by (simp add: two_vertex_fields)
  have b: "\<exists>s r'. getSamples ?E ''t'' 1 zero_rand = Inr (s, r') \<and>
      int (length s) = 1 \<and> distinct s \<and> set s \<subseteq> set [''o'']"
    using C4_getSamples [OF h k1 i, of zero_rand] by (simp add: two_vertex_candidates)
  have c: "getSamples ?E ''t'' 2 zero_rand = Inr ([''o''], zero_rand)"
    using C4_getSamples [OF h k2 i, of zero_rand]
    by (simp add: two_vertex_candidates two_vertex_fields)
  from h i a b c show ?thesis by simp
qed

subsection \<open>What the edge operations leave alone\<close>

lemma lookup_core: "map_option core (lookup tbl x) = find (\<lambda>c. fst c = x) (map core tbl)"
  by (induction tbl) (auto simp: lookup_def core_def)

lemma ID_core: "ID v = fst (core v)" by (simp add: core_def)

lemma map_ID_core: "map ID tbl = map fst (map core tbl)"
  by (simp add: core_def)

lemma core_upd_vertex:
  "(\<And>w. core (f w) = core w) \<Longrightarrow> map core (upd_vertex k f tbl) = map core tbl"
  by (simp add: upd_vertex_def)

lemma core_AddEdge: "map core (vertices (snd (AddEdge d p c))) = map core (vertices d)"
  by (simp add: AddEdge_def core_upd_vertex core_def split: option.splits)

lemma core_fold_upd:
  "(\<And>k w. core (f k w) = core w) \<Longrightarrow>
     map core (fold (\<lambda>k. upd_vertex k (f k)) ks tbl) = map core tbl"
  by (induction ks arbitrary: tbl) (simp_all add: core_upd_vertex)

lemma core_detach_child: "map core (fst (detach_child vid cid st)) = map core (fst st)"
  by (simp add: detach_child_def Let_def core_upd_vertex core_def)

lemma core_fold_detach: "map core (fst (fold (detach_child vid) cs st)) = map core (fst st)"
  by (induction cs arbitrary: st) (simp_all add: core_detach_child)

lemma core_RemoveVertex:
  "map core (vertices (snd (RemoveVertex d vid))) =
     (case lookup (vertices d) vid of None \<Rightarrow> map core (vertices d)
      | Some v \<Rightarrow> filter (\<lambda>c. fst c \<noteq> vid) (map core (vertices d)))"
proof (cases "lookup (vertices d) vid")
  case None
  then show ?thesis by (simp add: RemoveVertex_def)
next
  case (Some v)
  have "map core (filter (\<lambda>w. ID w \<noteq> vid) tbl) = filter (\<lambda>c. fst c \<noteq> vid) (map core tbl)" for tbl :: "'a Vertex list"
    by (induction tbl) (auto simp: core_def)
  then show ?thesis using Some
    by (simp add: RemoveVertex_def Let_def core_fold_detach core_fold_upd core_def)
qed

lemma filter_core_fresh:
  "lookup tbl vid = None \<Longrightarrow> filter (\<lambda>c. fst c \<noteq> vid) (map core tbl) = map core tbl"
  by (induction tbl) (auto simp: lookup_def core_def split: if_splits)

lemma core_RemoveVertex':
  "filter (\<lambda>c. fst c \<noteq> vid) (map core (vertices (snd (RemoveVertex d vid)))) = filter (\<lambda>c. fst c \<noteq> vid) (map core (vertices d))"
  by (simp add: core_RemoveVertex filter_core_fresh split: option.splits)

lemma core_link_parents:
  "link_parents d vid ps = (r, d') \<Longrightarrow>
     (r = None \<longrightarrow> map core (vertices d') = map core (vertices d)) \<and>
     (r \<noteq> None \<longrightarrow> map core (vertices d') =
        (case lookup (vertices d) vid of None \<Rightarrow> map core (vertices d)
         | Some v \<Rightarrow> filter (\<lambda>c. fst c \<noteq> vid) (map core (vertices d))))"
proof (induction ps arbitrary: d)
  case Nil
  then show ?case by simp
next
  case (Cons p ps)
  obtain e d1 where ae: "AddEdge d p vid = (e, d1)" by force
  have c1: "map core (vertices d1) = map core (vertices d)"
    using core_AddEdge[of d p vid] ae by simp
  then have l1: "lookup (vertices d1) vid = None \<longleftrightarrow> lookup (vertices d) vid = None"
    by (metis lookup_core option.map_disc_iff)
  show ?case
  proof (cases e)
    case None
    with Cons.prems ae have "link_parents d1 vid ps = (r, d')" by simp
    from Cons.IH[OF this] c1 l1 show ?thesis by (auto split: option.splits)
  next
    case (Some err)
    with Cons.prems ae have "r = Some err" "d' = snd (RemoveVertex d1 vid)" by auto
    then show ?thesis using core_RemoveVertex[of d1 vid] c1 l1 by (auto split: option.splits)
  qed
qed

lemma flagged_core:
  "flagged d x =
     (case find (\<lambda>c. fst c = x) (map core (vertices d)) of
        None \<Rightarrow> False | Some c \<Rightarrow> snd (snd (snd (snd c))))"
proof -
  have "map_option core (lookup (vertices d) x) = find (\<lambda>c. fst c = x) (map core (vertices d))"
    by (rule lookup_core)
  then show ?thesis
    by (cases "lookup (vertices d) x") (auto simp: flagged_def core_def split: option.splits)
qed

lemma present_core:
  "(lookup (vertices d) x = None) = (find (\<lambda>c. fst c = x) (map core (vertices d)) = None)"
  by (metis lookup_core option.map_disc_iff)

lemma lookup_append_fresh:
  "lookup (tbl @ [v]) x = (case lookup tbl x of Some w \<Rightarrow> Some w
     | None \<Rightarrow> if ID v = x then Some v else None)"
  by (induction tbl) (auto simp: lookup_def)

lemma Avalanche_AddVertex_cases:
  assumes "Avalanche_AddVertex a vid dat ps = (res, a')"
  shows "params a' = params a \<and> finalized a' = finalized a \<and>
     (case res of
        Inl e \<Rightarrow> pending a' = pending a \<and>
                 map core (vertices (dag a')) = map core (vertices (dag a))
      | Inr x \<Rightarrow> lookup (vertices (dag a)) vid = None \<and>
                 pending a' = AList.update vid 0 (pending a) \<and>
                 map core (vertices (dag a')) =
                   map core (vertices (dag a)) @ [core (new_vertex vid dat)])"
proof (cases "lookup (vertices (dag a)) vid")
  case (Some v)
  with assms show ?thesis by (auto simp: Avalanche_AddVertex_def DAG_AddVertex_def)
next
  case None
  let ?d1 = "(dag a)\<lparr>vertices := vertices (dag a) @ [new_vertex vid dat],
                      roots := List.insert vid (roots (dag a))\<rparr>"
  obtain e d' where lp: "link_parents ?d1 vid ps = (e, d')" by force
  have l1: "lookup (vertices ?d1) vid = Some (new_vertex vid dat)"
    using None by (simp add: lookup_append_fresh new_vertex_def)
  from core_link_parents[OF lp] l1
  have c: "e = None \<longrightarrow> map core (vertices d') = map core (vertices (dag a)) @ [core (new_vertex vid dat)]"
          "e \<noteq> None \<longrightarrow> map core (vertices d') = map core (vertices (dag a))"
    using None by (auto simp: filter_core_fresh core_def new_vertex_def)
  show ?thesis
  proof (cases e)
    case eN: None
    with assms None lp c show ?thesis
      by (auto simp: Avalanche_AddVertex_def DAG_AddVertex_def)
  next
    case (Some err)
    with assms None lp c show ?thesis
      by (auto simp: Avalanche_AddVertex_def DAG_AddVertex_def)
  qed
qed

lemma IsPending_update [simp]:
  "IsPending (a\<lparr>pending := AList.update k c (pending a)\<rparr>) x = (x = k \<or> IsPending a x)"
  by (auto simp: IsPending_def update_conv')

lemma IsFinalized_pending [simp]: "IsFinalized (a\<lparr>pending := p\<rparr>) x = IsFinalized a x"
  by (simp add: IsFinalized_def)

lemma IsPending_dag [simp]: "IsPending (a\<lparr>dag := d\<rparr>) x = IsPending a x"
  by (simp add: IsPending_def)

lemma IsFinalized_dag [simp]: "IsFinalized (a\<lparr>dag := d\<rparr>) x = IsFinalized a x"
  by (simp add: IsFinalized_def)

lemma finalize_facts:
  assumes "lookup (vertices (dag a)) vid = Some v"
  shows "IsPending (finalize a vid) x = (x \<noteq> vid \<and> IsPending a x)"
    "IsFinalized (finalize a vid) x = (x = vid \<or> IsFinalized a x)"
    "map ID (vertices (dag (finalize a vid))) = map ID (vertices (dag a))"
    "flagged (dag (finalize a vid)) x = (x = vid \<or> flagged (dag a) x)"
    "params (finalize a vid) = params a"
proof -
  have fin: "finalize a vid =
      a\<lparr>finalized := AList.update vid True (finalized a),
        pending := AList.delete vid (pending a),
        dag := (dag a)\<lparr>vertices :=
          upd_vertex vid (\<lambda>w. w\<lparr>Finalized := True\<rparr>) (vertices (dag a))\<rparr>\<rparr>"
    using assms by (simp add: finalize_def DAG_GetVertex_def)
  show "IsPending (finalize a vid) x = (x \<noteq> vid \<and> IsPending a x)"
    by (auto simp: fin IsPending_def delete_conv')
  show "IsFinalized (finalize a vid) x = (x = vid \<or> IsFinalized a x)"
    by (auto simp: fin IsFinalized_def update_conv')
  show "map ID (vertices (dag (finalize a vid))) = map ID (vertices (dag a))"
    by (simp add: fin upd_vertex_def o_def)
  show "flagged (dag (finalize a vid)) x = (x = vid \<or> flagged (dag a) x)"
    using assms lookup_Some_ID[of "vertices (dag a)" x]
    by (auto simp: fin flagged_def lookup_upd_vertex split: option.splits)
  show "params (finalize a vid) = params a"
    by (simp add: fin)
qed

lemma processVertex_cases:
  assumes "processVertex a vid r = Inr (a', r')"
  shows "a' = a \<or>
     (\<not> IsFinalized a vid \<and> (\<exists>v. lookup (vertices (dag a)) vid = Some v) \<and>
      (\<exists>c. a' = a\<lparr>pending := AList.update vid c (pending a)\<rparr> \<or>
           a' = finalize (a\<lparr>pending := AList.update vid c (pending a)\<rparr>) vid))"
proof (cases "IsFinalized a vid")
  case True
  with assms show ?thesis by (simp add: processVertex_def)
next
  case False
  from assms False obtain samples r1 where
    s: "getSamples a vid (K (params a)) r = Inr (samples, r1)"
    by (auto simp: processVertex_def Let_def split: sum.splits)
  show ?thesis
  proof (cases "samples = []")
    case True
    with assms False s show ?thesis by (simp add: processVertex_def)
  next
    case ne: False
    from getSamples_nonempty_lookup[OF s ne] obtain v where "lookup (vertices (dag a)) vid = Some v"
      by blast
    moreover obtain pc r2 where "count_preferences a vid samples 0 r1 = (pc, r2)" by force
    ultimately show ?thesis using assms False s ne
      by (auto simp: processVertex_def Let_def split: if_splits sum.splits)
  qed
qed

lemma map_ID_lookup: "map ID tbl' = map ID tbl \<Longrightarrow> (lookup tbl' x = None) = (lookup tbl x = None)"
  by (metis lookup_None_iff set_map)

lemma processVertex_wf:
  assumes wf: "consensus_wf a" and pv: "processVertex a vid r = Inr (a', r')"
  shows "consensus_wf a'"
proof -
  from processVertex_cases[OF pv] consider "a' = a"
    | v c where "\<not> IsFinalized a vid" "lookup (vertices (dag a)) vid = Some v"
        "a' = a\<lparr>pending := AList.update vid c (pending a)\<rparr>"
    | v c where "\<not> IsFinalized a vid" "lookup (vertices (dag a)) vid = Some v"
        "a' = finalize (a\<lparr>pending := AList.update vid c (pending a)\<rparr>) vid"
    by blast
  then show ?thesis
  proof cases
    case 1
    with wf show ?thesis by simp
  next
    case 2
    with wf show ?thesis by (auto simp: consensus_wf_def)
  next
    case 3
    let ?a1 = "a\<lparr>pending := AList.update vid c (pending a)\<rparr>"
    have l: "lookup (vertices (dag ?a1)) vid = Some v" using 3 by simp
    note f = finalize_facts[OF l]
    have "\<And>x. (lookup (vertices (dag (finalize ?a1 vid))) x = None) = (lookup (vertices (dag a)) x = None)"
      using map_ID_lookup[OF f(3)] by simp
    with wf 3 show ?thesis
      by (auto simp: consensus_wf_def f(1,2))
  qed
qed

lemma find_snoc:
  "find P (xs @ [y]) = (case find P xs of Some x \<Rightarrow> Some x | None \<Rightarrow> if P y then Some y else None)"
  by (induction xs) auto

lemma AddVertex_wf:
  assumes wf: "consensus_wf a"
  shows "consensus_wf (snd (Avalanche_AddVertex a vid dat ps))"
proof -
  obtain res a' where r: "Avalanche_AddVertex a vid dat ps = (res, a')" by force
  note c = Avalanche_AddVertex_cases[OF r]
  have fin: "\<And>x. IsFinalized a' x = IsFinalized a x" using c by (simp add: IsFinalized_def)
  show ?thesis
  proof (cases res)
    case (Inl e)
    with c have p: "pending a' = pending a"
      and k: "map core (vertices (dag a')) = map core (vertices (dag a))" by simp_all
    have "\<And>x. IsPending a' x = IsPending a x" using p by (simp add: IsPending_def)
    moreover have "\<And>x. (lookup (vertices (dag a')) x = None) = (lookup (vertices (dag a)) x = None)"
      using k by (simp add: present_core)
    ultimately show ?thesis using wf fin r by (simp add: consensus_wf_def)
  next
    case (Inr y)
    with c have fresh: "lookup (vertices (dag a)) vid = None"
      and p: "pending a' = AList.update vid 0 (pending a)"
      and k: "map core (vertices (dag a')) = map core (vertices (dag a)) @ [core (new_vertex vid dat)]"
      by simp_all
    have pe: "\<And>x. IsPending a' x = (x = vid \<or> IsPending a x)"
      using p by (auto simp: IsPending_def update_conv')
    have lk: "\<And>x. (lookup (vertices (dag a')) x = None) = (x \<noteq> vid \<and> lookup (vertices (dag a)) x = None)"
      unfolding present_core k by (auto simp: find_snoc core_def new_vertex_def split: option.splits)
    from wf fresh have nf: "\<not> IsFinalized a vid" by (auto simp: consensus_wf_def)
    show ?thesis using wf fin r pe lk nf by (auto simp: consensus_wf_def)
  qed
qed

lemma process_all_wf:
  "consensus_wf a \<Longrightarrow> process_all a ids r = Inr (a', r') \<Longrightarrow> consensus_wf a'"
proof (induction ids arbitrary: a r)
  case Nil
  then show ?case by simp
next
  case (Cons vid ids)
  from Cons.prems(2) obtain a1 r1 where pv: "processVertex a vid r = Inr (a1, r1)"
    and rest: "process_all a1 ids r1 = Inr (a', r')"
    by (auto split: sum.splits)
  from processVertex_wf[OF Cons.prems(1) pv] rest show ?case by (rule Cons.IH)
qed

lemma step_wf: "consensus_wf a \<Longrightarrow> step a x = Inr a' \<Longrightarrow> consensus_wf a'"
proof (cases x)
  case (OpAddVertex vid dat ps)
  assume "consensus_wf a" "step a x = Inr a'"
  with OpAddVertex AddVertex_wf[of a vid dat ps] show ?thesis by auto
next
  case (OpProcessVertex vid r)
  assume "consensus_wf a" "step a x = Inr a'"
  with OpProcessVertex show ?thesis by (auto split: sum.splits dest: processVertex_wf)
next
  case (OpConsensusRound r)
  assume "consensus_wf a" "step a x = Inr a'"
  with OpConsensusRound show ?thesis
    by (auto simp: consensusRound_def split: sum.splits dest: process_all_wf)
qed

lemma run_wf: "consensus_wf a \<Longrightarrow> run a xs = Inr a' \<Longrightarrow> consensus_wf a'"
proof (induction xs arbitrary: a)
  case Nil
  then show ?case by simp
next
  case (Cons x xs)
  from Cons.prems(2) obtain a1 where s: "step a x = Inr a1" and r: "run a1 xs = Inr a'"
    by (auto split: sum.splits)
  from step_wf[OF Cons.prems(1) s] r show ?case by (rule Cons.IH)
qed

lemma getSamples_no_panic: "0 \<le> k \<Longrightarrow> \<exists>s r'. getSamples a vid k r = Inr (s, r')"
  by (auto simp: getSamples_def Let_def split: sum.splits prod.splits)

lemma processVertex_params:
  assumes "processVertex a vid r = Inr (a', r')"
  shows "params a' = params a"
proof -
  from processVertex_cases[OF assms] consider "a' = a"
    | v c where "lookup (vertices (dag a)) vid = Some v"
        "a' = a\<lparr>pending := AList.update vid c (pending a)\<rparr>"
    | v c where "lookup (vertices (dag a)) vid = Some v"
        "a' = finalize (a\<lparr>pending := AList.update vid c (pending a)\<rparr>) vid"
    by blast
  then show ?thesis
  proof cases
    case 1
    then show ?thesis by simp
  next
    case 2
    then show ?thesis by simp
  next
    case 3
    have "lookup (vertices (dag (a\<lparr>pending := AList.update vid c (pending a)\<rparr>))) vid = Some v"
      using 3 by simp
    from finalize_facts(5)[OF this] 3 show ?thesis by simp
  qed
qed

lemma payloads_comparable_pending [simp]:
  "payloads_comparable (a\<lparr>pending := p\<rparr>) = payloads_comparable a"
  by (simp add: payloads_comparable_def)

lemma payloads_comparable_core:
  "payloads_comparable a =
     list_all (\<lambda>c. comparable_payload (fst (snd c))) (map core (vertices (dag a)))"
  by (simp add: payloads_comparable_def list_all_iff core_def)

lemma payloads_comparable_finalize:
  "payloads_comparable (finalize a vid) = payloads_comparable a"
proof -
  have "map Data (upd_vertex vid (\<lambda>w. w\<lparr>Finalized := True\<rparr>) tbl) = map Data tbl"
    for tbl :: "'a payload Vertex list"
    by (induction tbl) (simp_all add: upd_vertex_def)
  then have "map Data (vertices (dag (finalize a vid))) = map Data (vertices (dag a))"
    by (simp add: finalize_def Let_def split: sum.splits)
  moreover have "payloads_comparable b = list_all comparable_payload (map Data (vertices (dag b)))"
    for b :: "'a payload Avalanche"
    by (simp add: payloads_comparable_def list_all_iff)
  ultimately show ?thesis by simp
qed

lemma threshold_no_panic:
  assumes "payloads_comparable a"
  shows "\<exists>t. getConfidenceThreshold a vid = Inr t"
proof (cases "lookup (vertices (dag a)) vid")
  case None
  then show ?thesis by (simp add: getConfidenceThreshold_def DAG_GetVertex_def)
next
  case (Some v)
  with assms have "comparable_payload (Data v)"
    using lookup_Some_ID[OF Some] by (auto simp: payloads_comparable_def list_all_iff)
  from isVirtuous_loop_no_panic[OF this, of "GetVertices (dag a)"] Some show ?thesis
    by (auto simp: getConfidenceThreshold_def DAG_GetVertex_def)
qed

lemma processVertex_no_panic:
  assumes k: "0 \<le> K (params a)" and c: "payloads_comparable a"
  shows "\<exists>a' r'. processVertex a vid r = Inr (a', r')"
proof -
  from getSamples_no_panic[OF k, of a vid r] obtain s r1 where
    g: "getSamples a vid (K (params a)) r = Inr (s, r1)" by blast
  obtain pc r2 where cp: "count_preferences a vid s 0 r1 = (pc, r2)" by force
  from threshold_no_panic[OF c, of vid] obtain t where t: "getConfidenceThreshold a vid = Inr t"
    by blast
  from g cp t show ?thesis
    by (auto simp: processVertex_def Let_def)
qed

lemma processVertex_payloads:
  assumes "processVertex a vid r = Inr (a', r')"
  shows "payloads_comparable a' = payloads_comparable a"
  using processVertex_cases[OF assms] by (auto simp: payloads_comparable_finalize)

lemma AddVertex_payloads:
  assumes c: "payloads_comparable a" and d: "comparable_payload dat"
  shows "payloads_comparable (snd (Avalanche_AddVertex a vid dat ps))"
proof -
  obtain res a' where r: "Avalanche_AddVertex a vid dat ps = (res, a')" by force
  from Avalanche_AddVertex_cases[OF r] c d r show ?thesis
    by (cases res) (auto simp: payloads_comparable_core core_def new_vertex_def)
qed

lemma process_all_no_panic:
  "0 \<le> K (params a) \<Longrightarrow> payloads_comparable a \<Longrightarrow>
     \<exists>a' r'. process_all a ids r = Inr (a', r') \<and> params a' = params a \<and>
       payloads_comparable a'"
proof (induction ids arbitrary: a r)
  case Nil
  then show ?case by simp
next
  case (Cons vid ids)
  from processVertex_no_panic[OF Cons.prems, of vid r] obtain a1 r1 where
    pv: "processVertex a vid r = Inr (a1, r1)" by blast
  then have p: "params a1 = params a" by (rule processVertex_params)
  with Cons.prems have k1: "0 \<le> K (params a1)" by simp
  have c1: "payloads_comparable a1" using processVertex_payloads[OF pv] Cons.prems by simp
  from Cons.IH[OF k1 c1, of r1] pv p show ?case by auto
qed

lemma step_no_panic:
  assumes k: "0 \<le> K (params a)" and c: "payloads_comparable a" and o: "op_comparable x"
  shows "\<exists>a'. step a x = Inr a' \<and> params a' = params a \<and> payloads_comparable a'"
proof (cases x)
  case (OpAddVertex vid dat ps)
  obtain res a' where r: "Avalanche_AddVertex a vid dat ps = (res, a')" by force
  from o OpAddVertex have "comparable_payload dat" by simp
  from AddVertex_payloads[OF c this, of vid ps] Avalanche_AddVertex_cases[OF r] OpAddVertex r
  show ?thesis by simp
next
  case (OpProcessVertex vid r)
  from processVertex_no_panic[OF k c, of vid r] obtain a1 r1 where
    pv: "processVertex a vid r = Inr (a1, r1)" by blast
  from processVertex_params[OF pv] processVertex_payloads[OF pv] c pv OpProcessVertex
  show ?thesis by simp
next
  case (OpConsensusRound r)
  from process_all_no_panic[OF k c, of "map fst (pending a)" r] OpConsensusRound show ?thesis
    by (auto simp: consensusRound_def)
qed

lemma run_no_panic:
  "0 \<le> K (params a) \<Longrightarrow> payloads_comparable a \<Longrightarrow> list_all op_comparable xs \<Longrightarrow>
     \<exists>a'. run a xs = Inr a'"
proof (induction xs arbitrary: a)
  case Nil
  then show ?case by simp
next
  case (Cons x xs)
  from Cons.prems(3) have ox: "op_comparable x" and oxs: "list_all op_comparable xs" by simp_all
  from step_no_panic[OF Cons.prems(1,2) ox] obtain a1 where
    s: "step a x = Inr a1" and p: "params a1 = params a" and c1: "payloads_comparable a1" by blast
  with Cons.prems have "0 \<le> K (params a1)" by simp
  from Cons.IH[OF this c1 oxs] s show ?case by simp
qed

subsection \<open>The consensus state stays well-formed\<close>

text \<open>
  C8. The consensus state of a new engine is well-formed, and from a well-formed state
  each engine operation (AddVertex, processVertex, consensusRound) and every sequence
  of them leaves a well-formed state: the pending map and the finalized set are
  disjoint and every id in either one is in the vertex table of the DAG. With K not
  negative and only payloads of comparable dynamic types in the DAG and in the
  operations, every sequence of operations runs to its end.
\<close>

theorem C8_consensus_wf:
  "consensus_wf (NewAvalanche d ps) \<and>
   (consensus_wf a \<longrightarrow>
      consensus_wf (snd (Avalanche_AddVertex a vid dat parentIDs)) \<and>
      (\<forall>a' r'. processVertex a vid r = Inr (a', r') \<longrightarrow> consensus_wf a') \<and>
      (\<forall>a' r'. consensusRound a r = Inr (a', r') \<longrightarrow> consensus_wf a') \<and>
      (\<forall>a'. run a xs = Inr a' \<longrightarrow> consensus_wf a') \<and>
      (0 \<le> K (params a) \<and> payloads_comparable a \<and> list_all op_comparable xs \<longrightarrow>
         (\<exists>a'. run a xs = Inr a')))"
proof -
  have "consensus_wf (NewAvalanche d ps)"
    by (simp add: consensus_wf_def NewAvalanche_def IsPending_def IsFinalized_def)
  moreover have "consensus_wf a \<Longrightarrow> consensusRound a r = Inr (a', r') \<Longrightarrow> consensus_wf a'" for a' r'
    unfolding consensusRound_def by (rule process_all_wf)
  moreover have "consensus_wf a \<Longrightarrow> consensus_wf (snd (Avalanche_AddVertex a vid dat parentIDs))"
    by (rule AddVertex_wf)
  moreover have "consensus_wf a \<Longrightarrow> processVertex a vid r = Inr (a', r') \<Longrightarrow> consensus_wf a'" for a' r'
    by (rule processVertex_wf)
  moreover have "consensus_wf a \<Longrightarrow> run a xs = Inr a' \<Longrightarrow> consensus_wf a'" for a'
    by (rule run_wf)
  moreover have "0 \<le> K (params a) \<Longrightarrow> payloads_comparable a \<Longrightarrow> list_all op_comparable xs \<Longrightarrow>
      \<exists>a'. run a xs = Inr a'"
    by (rule run_no_panic)
  ultimately show ?thesis by blast
qed

theorem C8_consensus_wf_witness:
  "consensus_wf (two_vertex_engine 2 1 19) \<and>
   payloads_comparable (two_vertex_engine 2 1 19) \<and>
   consensus_wf (snd (Avalanche_AddVertex (two_vertex_engine 2 1 19) ''n'' (Comparable 30) [''t''])) \<and>
   (\<exists>a'. run (two_vertex_engine 2 1 19)
            [OpAddVertex ''n'' (Comparable 30) [''t''], OpProcessVertex ''t'' zero_rand,
             OpConsensusRound zero_rand] = Inr a' \<and>
         consensus_wf a')"
proof -
  let ?E = "two_vertex_engine 2 1 19"
  let ?xs = "[OpAddVertex ''n'' (Comparable 30) [''t''], OpProcessVertex ''t'' zero_rand,
              OpConsensusRound zero_rand]"
  have wf: "consensus_wf ?E"
    by (simp add: consensus_wf_def IsPending_def IsFinalized_def two_vertex_engine_def
        two_vertex_dag_eq lookup_def new_vertex_def)
  have k: "0 \<le> K (params ?E) \<and> payloads_comparable ?E \<and> list_all op_comparable ?xs"
    by (simp add: two_vertex_fields two_vertex_payloads comparable_payload_def)
  note t = C8_consensus_wf [where a = ?E and vid = "''n''" and dat = "Comparable 30" and parentIDs = "[''t'']"
      and xs = ?xs]
  from t wf have a: "consensus_wf (snd (Avalanche_AddVertex ?E ''n'' (Comparable 30) [''t'']))" by blast
  from t wf k obtain a' where r: "run ?E ?xs = Inr a'" by blast
  with t wf have "consensus_wf a'" by blast
  with wf k a r show ?thesis by blast
qed

subsection \<open>Finalization is monotone\<close>

lemma kept_refl: "kept a a"
  by (simp add: kept_def)

lemma kept_trans: "kept a b \<Longrightarrow> kept b c \<Longrightarrow> kept a c"
  by (simp add: kept_def)

lemma AddVertex_kept: "kept a (snd (Avalanche_AddVertex a vid dat ps))"
proof -
  obtain res a' where r: "Avalanche_AddVertex a vid dat ps = (res, a')" by force
  note c = Avalanche_AddVertex_cases[OF r]
  have fin: "\<And>x. IsFinalized a' x = IsFinalized a x" using c by (simp add: IsFinalized_def)
  have "flagged (dag a) x \<Longrightarrow> flagged (dag a') x" for x
  proof (cases res)
    case (Inl e)
    with c have "map core (vertices (dag a')) = map core (vertices (dag a))" by simp
    then show "flagged (dag a) x \<Longrightarrow> flagged (dag a') x" by (simp add: flagged_core)
  next
    case (Inr y)
    with c have "map core (vertices (dag a')) =
        map core (vertices (dag a)) @ [core (new_vertex vid dat)]" by simp
    then show "flagged (dag a) x \<Longrightarrow> flagged (dag a') x"
      by (auto simp: flagged_core find_snoc split: option.splits)
  qed
  with fin r show ?thesis by (simp add: kept_def)
qed

lemma processVertex_kept:
  assumes "processVertex a vid r = Inr (a', r')"
  shows "kept a a'"
proof -
  from processVertex_cases[OF assms] consider "a' = a"
    | v c where "lookup (vertices (dag a)) vid = Some v"
        "a' = a\<lparr>pending := AList.update vid c (pending a)\<rparr>"
    | v c where "lookup (vertices (dag a)) vid = Some v"
        "a' = finalize (a\<lparr>pending := AList.update vid c (pending a)\<rparr>) vid"
    by blast
  then show ?thesis
  proof cases
    case 1
    then show ?thesis by (simp add: kept_refl)
  next
    case 2
    then show ?thesis by (simp add: kept_def)
  next
    case 3
    have "lookup (vertices (dag (a\<lparr>pending := AList.update vid c (pending a)\<rparr>))) vid = Some v"
      using 3 by simp
    note f = finalize_facts[OF this]
    show ?thesis unfolding kept_def 3(2) by (simp add: f(2,4))
  qed
qed

lemma process_all_kept: "process_all a ids r = Inr (a', r') \<Longrightarrow> kept a a'"
proof (induction ids arbitrary: a r)
  case Nil
  then show ?case by (simp add: kept_refl)
next
  case (Cons vid ids)
  from Cons.prems obtain a1 r1 where pv: "processVertex a vid r = Inr (a1, r1)"
    and rest: "process_all a1 ids r1 = Inr (a', r')"
    by (auto split: sum.splits)
  from processVertex_kept[OF pv] Cons.IH[OF rest] show ?case by (rule kept_trans)
qed

lemma step_kept: "step a x = Inr a' \<Longrightarrow> kept a a'"
proof (cases x)
  case (OpAddVertex vid dat ps)
  assume "step a x = Inr a'"
  with OpAddVertex AddVertex_kept[of a vid dat ps] show ?thesis by auto
next
  case (OpProcessVertex vid r)
  assume "step a x = Inr a'"
  with OpProcessVertex show ?thesis by (auto split: sum.splits dest: processVertex_kept)
next
  case (OpConsensusRound r)
  assume "step a x = Inr a'"
  with OpConsensusRound show ?thesis
    by (auto simp: consensusRound_def split: sum.splits dest: process_all_kept)
qed

lemma run_kept: "run a xs = Inr a' \<Longrightarrow> kept a a'"
proof (induction xs arbitrary: a)
  case Nil
  then show ?case by (simp add: kept_refl)
next
  case (Cons x xs)
  from Cons.prems obtain a1 where s: "step a x = Inr a1" and r: "run a1 xs = Inr a'"
    by (auto split: sum.splits)
  from step_kept[OF s] Cons.IH[OF r] show ?case by (rule kept_trans)
qed

text \<open>
  C9. From a well-formed consensus state and for every sequence of engine operations
  that runs to its end: a vertex of the DAG whose finalized flag is true is still in
  the DAG with the flag true afterwards, an id in the finalized set is still in it, and
  it is not in the pending map.
\<close>

theorem C9_finalization_monotone:
  assumes wf: "consensus_wf a" and r: "run a xs = Inr a'"
  shows "(flagged (dag a) x \<longrightarrow> flagged (dag a') x) \<and>
         (IsFinalized a x \<longrightarrow> IsFinalized a' x \<and> \<not> IsPending a' x)"
proof -
  from run_kept[OF r] have k: "kept a a'" .
  from run_wf[OF wf r] have "consensus_wf a'" .
  then have "IsFinalized a' x \<Longrightarrow> \<not> IsPending a' x" by (auto simp: consensus_wf_def)
  with k show ?thesis by (auto simp: kept_def)
qed

lemma finalized_engine_eq:
  "finalized_engine =
     \<lparr>dag = \<lparr>vertices = [(new_vertex ''t'' (Comparable 10))\<lparr>Finalized := True\<rparr>, new_vertex ''o'' (Comparable 20)],
             roots = [''o'', ''t'']\<rparr>,
      params = DefaultParams\<lparr>K := 2, Alpha := 1\<rparr>, pending = [], finalized = [(''t'', True)]\<rparr>"
proof -
  have "processVertex (two_vertex_engine 2 1 19) ''t'' zero_rand =
      Inr (finalize ((two_vertex_engine 2 1 19)\<lparr>pending := [(''t'', 20)]\<rparr>) ''t'', zero_rand)"
    by (simp add: processVertex_def two_vertex_samples_K2 two_vertex_fields two_vertex_count
        two_vertex_threshold pending_count_def wrap64_def del: count_preferences.simps)
  then show ?thesis
    by (simp add: finalized_engine_def finalize_def two_vertex_engine_def two_vertex_dag_eq
        DAG_GetVertex_def lookup_def new_vertex_def upd_vertex_def)
qed

theorem C9_finalization_monotone_witness:
  "consensus_wf finalized_engine \<and>
   flagged (dag finalized_engine) ''t'' \<and> IsFinalized finalized_engine ''t'' \<and>
   (\<exists>a'. run finalized_engine
            [OpAddVertex ''t'' (Comparable 99) [], OpProcessVertex ''t'' zero_rand,
             OpAddVertex ''n'' (Comparable 30) [''t''], OpConsensusRound zero_rand] = Inr a' \<and>
         flagged (dag a') ''t'' \<and> IsFinalized a' ''t'' \<and> \<not> IsPending a' ''t'')"
proof -
  let ?xs = "[OpAddVertex ''t'' (Comparable 99) [], OpProcessVertex ''t'' zero_rand,
              OpAddVertex ''n'' (Comparable 30) [''t''], OpConsensusRound zero_rand]"
  have wf: "consensus_wf finalized_engine"
    by (simp add: consensus_wf_def IsPending_def IsFinalized_def finalized_engine_eq lookup_def
        new_vertex_def)
  have fl: "flagged (dag finalized_engine) ''t''"
    by (simp add: flagged_def finalized_engine_eq lookup_def new_vertex_def)
  have fi: "IsFinalized finalized_engine ''t''"
    by (simp add: IsFinalized_def finalized_engine_eq)
  have k: "0 \<le> K (params finalized_engine)"
    by (simp add: finalized_engine_eq DefaultParams_def)
  have pc: "payloads_comparable finalized_engine"
    by (simp add: payloads_comparable_def finalized_engine_eq new_vertex_def
        comparable_payload_def)
  have oc: "list_all op_comparable ?xs"
    by (simp add: comparable_payload_def)
  from run_no_panic [OF k pc oc] obtain a' where r: "run finalized_engine ?xs = Inr a'"
    by blast
  from C9_finalization_monotone [OF wf r, of "''t''"] fl fi
  have "flagged (dag a') ''t'' \<and> IsFinalized a' ''t'' \<and> \<not> IsPending a' ''t''" by simp
  with wf fl fi r show ?thesis by blast
qed

subsection \<open>The rollback of the engine's AddVertex\<close>

lemma ID_mark_child [simp]: "ID (mark_child vid L v) = ID v"
  by (simp add: mark_child_def)

lemma linked_Nil:
  "lookup (vertices d0) vid = None \<Longrightarrow> snd (DAG_AddVertex d0 vid dat) = linked d0 vid dat []"
  by (cases d0) (simp add: DAG_AddVertex_def linked_def mark_child_def new_vertex_def map_idI)

lemma lookup_map_ID:
  "(\<And>w. ID (f w) = ID w) \<Longrightarrow> lookup (map f tbl) x = map_option f (lookup tbl x)"
  by (induction tbl) (auto simp: lookup_def)

lemma lookup_linked:
  "lookup (vertices d0) vid = None \<Longrightarrow>
     lookup (vertices (linked d0 vid dat L)) x =
       (if x = vid then Some ((new_vertex vid dat)\<lparr>Parents := L\<rparr>)
        else map_option (mark_child vid L) (lookup (vertices d0) x))"
  by (auto simp: linked_def lookup_append_fresh lookup_map_ID new_vertex_def
      split: option.splits dest: lookup_Some_ID)

lemma upd_vertex_fresh:
  "k \<notin> ID ` set tbl \<Longrightarrow> upd_vertex k f tbl = tbl"
  by (induction tbl) (auto simp: upd_vertex_def)

lemma upd_vertex_append: "upd_vertex k f (xs @ ys) = upd_vertex k f xs @ upd_vertex k f ys"
  by (simp add: upd_vertex_def)

lemma mark_child_insert:
  "upd_vertex pid (\<lambda>p. p\<lparr>Children := List.insert vid (Children p)\<rparr>) (map (mark_child vid L) tbl) =
     map (mark_child vid (List.insert pid L)) tbl"
  by (induction tbl) (auto simp: upd_vertex_def mark_child_def)

lemma AddEdge_linked:
  assumes fresh: "lookup (vertices d0) vid = None"
    and ae: "AddEdge (linked d0 vid dat L) pid vid = (None, d')"
  shows "d' = linked d0 vid dat (List.insert pid L) \<and> pid \<in> ID ` set (vertices d0)"
proof -
  have ne: "pid \<noteq> vid"
  proof
    assume "pid = vid"
    with ae fresh show False
      by (simp add: AddEdge_def lookup_linked wouldCreateCycle_def)
  qed
  from ae obtain parent where p: "lookup (vertices (linked d0 vid dat L)) pid = Some parent"
    by (auto simp: AddEdge_def split: option.splits)
  with ne fresh have pin: "pid \<in> ID ` set (vertices d0)"
    by (auto simp: lookup_linked dest: lookup_Some_ID)
  have vnot: "vid \<notin> ID ` set (map (mark_child vid (List.insert pid L)) (vertices d0))"
    using fresh by (simp add: lookup_None_iff image_image)
  have "d' = (linked d0 vid dat L)\<lparr>vertices :=
            upd_vertex vid (\<lambda>c. c\<lparr>Parents := List.insert pid (Parents c)\<rparr>)
              (upd_vertex pid (\<lambda>p. p\<lparr>Children := List.insert vid (Children p)\<rparr>)
                 (vertices (linked d0 vid dat L))),
          roots := removeAll vid (roots (linked d0 vid dat L))\<rparr>"
    using ae by (auto simp: AddEdge_def split: option.splits if_splits)
  also have "\<dots> = linked d0 vid dat (List.insert pid L)"
    using ne vnot
    by (simp add: linked_def upd_vertex_append mark_child_insert upd_vertex_fresh)
       (auto simp add: upd_vertex_def new_vertex_def List.insert_def)
  finally show ?thesis using pin by simp
qed

lemma fold_upd_vertex:
  "(\<And>w. ID (f w) = ID w) \<Longrightarrow> (\<And>w. f (f w) = f w) \<Longrightarrow>
     fold (\<lambda>k. upd_vertex k f) ks tbl = map (\<lambda>v. if ID v \<in> set ks then f v else v) tbl"
proof (induction ks arbitrary: tbl)
  case Nil
  then show ?case by simp
next
  case (Cons k ks)
  have "fold (\<lambda>k. upd_vertex k f) (k # ks) tbl = fold (\<lambda>k. upd_vertex k f) ks (upd_vertex k f tbl)"
    by simp
  also have "\<dots> = map (\<lambda>v. if ID v \<in> set ks then f v else v) (upd_vertex k f tbl)"
    using Cons by simp
  also have "\<dots> = map (\<lambda>v. if ID v \<in> set (k # ks) then f v else v) tbl"
    using Cons.prems by (auto simp: upd_vertex_def)
  finally show ?case .
qed

lemma RemoveVertex_linked:
  assumes fresh: "lookup (vertices d0) vid = None"
    and nochild: "\<forall>v \<in> set (vertices d0). vid \<notin> set (Children v)"
    and noroot: "vid \<notin> set (roots d0)"
  shows "RemoveVertex (linked d0 vid dat L) vid = (None, d0)"
proof -
  let ?nv = "(new_vertex vid dat)\<lparr>Parents := L\<rparr>"
  let ?rm = "\<lambda>p::'a Vertex. p\<lparr>Children := removeAll vid (Children p)\<rparr>"
  have l: "lookup (vertices (linked d0 vid dat L)) vid = Some ?nv"
    using fresh by (simp add: lookup_linked)
  have fid: "\<forall>v \<in> set (vertices d0). ID v \<noteq> vid"
    using fresh by (auto simp: lookup_None_iff)
  have t1: "fold (\<lambda>pid. upd_vertex pid ?rm) L (vertices (linked d0 vid dat L)) =
      map (\<lambda>v. if ID v \<in> set L then ?rm v else v) (vertices (linked d0 vid dat L))"
    by (rule fold_upd_vertex) simp_all
  have t2: "filter (\<lambda>w. ID w \<noteq> vid)
      (map (\<lambda>v. if ID v \<in> set L then ?rm v else v) (vertices (linked d0 vid dat L))) = vertices d0"
  proof -
    have "map (\<lambda>v. if ID v \<in> set L then ?rm v else v) (map (mark_child vid L) tbl) = tbl"
      if "\<forall>v \<in> set tbl. vid \<notin> set (Children v)" for tbl :: "'a Vertex list"
      using that by (induction tbl) (auto simp: mark_child_def)
    moreover have "filter (\<lambda>w. ID w \<noteq> vid) (vertices d0) = vertices d0"
      using fid by (simp add: filter_id_conv)
    ultimately show ?thesis using nochild
      by (simp add: linked_def new_vertex_def)
  qed
  have r: "removeAll vid (roots (linked d0 vid dat L)) = roots d0"
    using noroot by (simp add: linked_def)
  show ?thesis
    using l t1 t2 r by (simp add: RemoveVertex_def Let_def new_vertex_def)
qed

lemma link_parents_linked:
  assumes fresh: "lookup (vertices d0) vid = None"
    and nochild: "\<forall>v \<in> set (vertices d0). vid \<notin> set (Children v)"
    and noroot: "vid \<notin> set (roots d0)"
  shows "link_parents (linked d0 vid dat L) vid ps = (e, d') \<Longrightarrow>
     (e \<noteq> None \<longrightarrow> d' = d0) \<and>
     (e = None \<longrightarrow> (\<exists>L'. d' = linked d0 vid dat L' \<and> set L' = set L \<union> set ps \<and>
                        set ps \<subseteq> ID ` set (vertices d0)))"
proof (induction ps arbitrary: L)
  case Nil
  then show ?case by auto
next
  case (Cons p ps)
  obtain e1 d1 where ae: "AddEdge (linked d0 vid dat L) p vid = (e1, d1)" by force
  show ?case
  proof (cases e1)
    case None
    from AddEdge_linked[OF fresh ae[unfolded None]]
    have d1: "d1 = linked d0 vid dat (List.insert p L)" and pin: "p \<in> ID ` set (vertices d0)"
      by simp_all
    from Cons.prems ae None d1 have "link_parents (linked d0 vid dat (List.insert p L)) vid ps = (e, d')"
      by simp
    from Cons.IH[OF this] pin show ?thesis by auto
  next
    case (Some err)
    have "d1 = linked d0 vid dat L" using ae Some
      by (auto simp: AddEdge_def split: option.splits if_splits)
    with Cons.prems ae Some RemoveVertex_linked[OF fresh nochild noroot, of dat L]
    show ?thesis by auto
  qed
qed

lemma dag_inv_fresh:
  assumes "dag_inv d" and "lookup (vertices d) vid = None"
  shows "\<forall>v \<in> set (vertices d). vid \<notin> set (Children v)" and "vid \<notin> set (roots d)"
  using assms by (auto simp: dag_inv_def lookup_None_iff)

lemma AddVertex_rollback:
  assumes inv: "dag_inv (dag a)" and fresh: "lookup (vertices (dag a)) vid = None"
  shows "(\<forall>e a'. Avalanche_AddVertex a vid dat ps = (Inl e, a') \<longrightarrow> a' = a) \<and>
         ((\<exists>p \<in> set ps. lookup (vertices (dag a)) p = None) \<longrightarrow>
            (\<exists>e. Avalanche_AddVertex a vid dat ps = (Inl e, a)))"
proof -
  let ?d0 = "dag a"
  obtain e d' where lp: "link_parents (linked ?d0 vid dat []) vid ps = (e, d')" by force
  note L = link_parents_linked[OF fresh dag_inv_fresh[OF inv fresh] lp]
  have av: "DAG_AddVertex ?d0 vid dat = (Inr vid, linked ?d0 vid dat [])"
    using linked_Nil[OF fresh, of dat] fresh by (simp add: DAG_AddVertex_def)
  show ?thesis
  proof (cases e)
    case None
    with L have "set ps \<subseteq> ID ` set (vertices ?d0)" by auto
    then have "\<not> (\<exists>p \<in> set ps. lookup (vertices ?d0) p = None)"
      by (auto simp: lookup_None_iff)
    moreover have "fst (Avalanche_AddVertex a vid dat ps) = Inr vid"
      using av lp None by (simp add: Avalanche_AddVertex_def)
    ultimately show ?thesis by auto
  next
    case (Some err)
    with L have "d' = ?d0" by simp
    then have "Avalanche_AddVertex a vid dat ps = (Inl err, a)"
      using av lp Some by (simp add: Avalanche_AddVertex_def)
    then show ?thesis by auto
  qed
qed

text \<open>
  C2. For an engine whose DAG satisfies the invariant of its maps and an id that is not
  in the DAG: a call of AddVertex(id, data, parentIds) in which some parent id is
  missing from the DAG returns an error; and whenever the call returns an error (a
  missing parent, or an edge rejected as a cycle), the engine state it leaves is the
  state it was given: GetVertex(id) returns NotFound, id is a child of no vertex and
  is no root, and the pending map is unchanged.
\<close>

theorem C2_AddVertex_atomic:
  assumes inv: "dag_inv (dag a)" and fresh: "lookup (vertices (dag a)) vid = None"
  shows "((\<exists>p \<in> set parentIDs. lookup (vertices (dag a)) p = None) \<longrightarrow>
            (\<exists>e. fst (Avalanche_AddVertex a vid dat parentIDs) = Inl e)) \<and>
         (\<forall>e a'. Avalanche_AddVertex a vid dat parentIDs = (Inl e, a') \<longrightarrow>
            a' = a \<and>
            DAG_GetVertex (dag a') vid = Inl ErrVertexNotFound \<and>
            (\<forall>v \<in> set (vertices (dag a')). vid \<notin> set (Children v)) \<and>
            vid \<notin> set (roots (dag a')) \<and>
            pending a' = pending a)"
proof -
  note R = AddVertex_rollback[OF inv fresh, of dat parentIDs]
  have g: "DAG_GetVertex (dag a) vid = Inl ErrVertexNotFound"
    using fresh by (simp add: DAG_GetVertex_def)
  note F = dag_inv_fresh[OF inv fresh]
  from R have "(\<exists>p \<in> set parentIDs. lookup (vertices (dag a)) p = None) \<longrightarrow>
            (\<exists>e. fst (Avalanche_AddVertex a vid dat parentIDs) = Inl e)"
    by (metis fst_conv)
  moreover have "\<forall>e a'. Avalanche_AddVertex a vid dat parentIDs = (Inl e, a') \<longrightarrow>
            a' = a \<and>
            DAG_GetVertex (dag a') vid = Inl ErrVertexNotFound \<and>
            (\<forall>v \<in> set (vertices (dag a')). vid \<notin> set (Children v)) \<and>
            vid \<notin> set (roots (dag a')) \<and>
            pending a' = pending a"
    using R g F by blast
  ultimately show ?thesis by blast
qed

lemma S3_engine_dag_inv: "dag_inv (dag S3_engine)"
  by (simp add: S3_engine_def NewAvalanche_def S3_dag_eq dag_inv_def)

lemma S3_engine_fresh:
  "lookup (vertices (dag S3_engine)) ''vZ'' = None"
  "lookup (vertices (dag S3_engine)) ''nonexistent'' = None"
  by (simp_all add: S3_engine_def NewAvalanche_def S3_dag_eq lookup_def)

theorem C2_AddVertex_atomic_witness:
  "dag_inv (dag S3_engine) \<and>
   lookup (vertices (dag S3_engine)) ''vZ'' = None \<and>
   lookup (vertices (dag S3_engine)) ''nonexistent'' = None \<and>
   (\<exists>e. Avalanche_AddVertex S3_engine ''vZ'' 9 [''a'', ''nonexistent''] = (Inl e, S3_engine)) \<and>
   DAG_GetVertex (dag S3_engine) ''vZ'' = Inl ErrVertexNotFound"
proof -
  note t = C2_AddVertex_atomic [OF S3_engine_dag_inv S3_engine_fresh(1),
      of "[''a'', ''nonexistent'']" 9]
  have "\<exists>p \<in> set [''a'', ''nonexistent'']. lookup (vertices (dag S3_engine)) p = None"
    using S3_engine_fresh(2) by simp
  with t obtain e where e: "fst (Avalanche_AddVertex S3_engine ''vZ'' 9 [''a'', ''nonexistent'']) = Inl e"
    by blast
  obtain a' where a': "Avalanche_AddVertex S3_engine ''vZ'' 9 [''a'', ''nonexistent''] = (Inl e, a')"
    using e by (metis prod.collapse)
  with t have "a' = S3_engine" and "DAG_GetVertex (dag a') ''vZ'' = Inl ErrVertexNotFound"
    by blast+
  with a' S3_engine_dag_inv S3_engine_fresh show ?thesis by blast
qed

subsection \<open>The invariant of the maps is kept\<close>

lemma dag_inv_NewDAG: "dag_inv NewDAG"
  by (simp add: dag_inv_def NewDAG_def)

lemma dag_inv_DAG_AddVertex: "dag_inv d \<Longrightarrow> dag_inv (snd (DAG_AddVertex d vid dat))"
  by (auto simp: dag_inv_def DAG_AddVertex_def new_vertex_def lookup_None_iff
      split: option.splits)

lemma dag_inv_map:
  assumes inv: "dag_inv d"
    and hid: "\<And>v. ID (h v) = ID v"
    and each: "\<And>v. v \<in> set (vertices d) \<Longrightarrow>
        distinct (Parents (h v)) \<and> distinct (Children (h v)) \<and>
        set (Parents (h v)) \<subseteq> ID ` set (vertices d) \<and>
        set (Children (h v)) \<subseteq> ID ` set (vertices d)"
    and rs: "set rs \<subseteq> ID ` set (vertices d)"
  shows "dag_inv (d\<lparr>vertices := map h (vertices d), roots := rs\<rparr>)"
proof -
  let ?tbl = "map h (vertices d)"
  have m: "map ID ?tbl = map ID (vertices d)"
    by (simp add: hid)
  have i: "ID ` set ?tbl = ID ` set (vertices d)"
    by (metis m set_map)
  have A: "distinct (map ID ?tbl)"
    unfolding m using inv by (simp add: dag_inv_def)
  have B: "\<forall>v \<in> set ?tbl. distinct (Parents v) \<and> distinct (Children v) \<and>
      set (Parents v) \<subseteq> ID ` set ?tbl \<and> set (Children v) \<subseteq> ID ` set ?tbl"
    unfolding i using each by auto
  have C: "set rs \<subseteq> ID ` set ?tbl"
    unfolding i by (rule rs)
  have eq: "d\<lparr>vertices := ?tbl, roots := rs\<rparr> = \<lparr>vertices = ?tbl, roots = rs\<rparr>"
    by (cases d) simp
  have "dag_inv \<lparr>vertices = ?tbl, roots = rs\<rparr>"
    unfolding dag_inv_def DAG.simps using A B C by blast
  then show ?thesis unfolding eq .
qed

lemma dag_inv_AddEdge:
  assumes inv: "dag_inv d"
  shows "dag_inv (snd (AddEdge d p c))"
proof (cases "fst (AddEdge d p c)")
  case (Some e)
  then have "snd (AddEdge d p c) = d"
    by (auto simp: AddEdge_def split: option.splits if_splits)
  with assms show ?thesis by simp
next
  case None
  then obtain pv cv where pv: "lookup (vertices d) p = Some pv" and cv: "lookup (vertices d) c = Some cv"
    by (auto simp: AddEdge_def split: option.splits if_splits)
  define h :: "'a Vertex \<Rightarrow> 'a Vertex" where
    "h = (\<lambda>v. (if ID v = c then (\<lambda>w. w\<lparr>Parents := List.insert p (Parents w)\<rparr>) else (\<lambda>w. w))
             ((if ID v = p then (\<lambda>w. w\<lparr>Children := List.insert c (Children w)\<rparr>) else (\<lambda>w. w)) v))"
  have d': "snd (AddEdge d p c) = d\<lparr>vertices := map h (vertices d), roots := removeAll c (roots d)\<rparr>"
    using None pv cv by (auto simp: AddEdge_def upd_vertex_def h_def split: if_splits)
  have pin: "p \<in> ID ` set (vertices d)" and cin: "c \<in> ID ` set (vertices d)"
    using lookup_Some_ID[OF pv] lookup_Some_ID[OF cv] by auto
  have "dag_inv (d\<lparr>vertices := map h (vertices d), roots := removeAll c (roots d)\<rparr>)"
  proof (rule dag_inv_map[OF inv])
    show "ID (h v) = ID v" for v by (simp add: h_def)
    show "distinct (Parents (h v)) \<and> distinct (Children (h v)) \<and>
        set (Parents (h v)) \<subseteq> ID ` set (vertices d) \<and>
        set (Children (h v)) \<subseteq> ID ` set (vertices d)" if "v \<in> set (vertices d)" for v
      using that inv pin cin by (auto simp: dag_inv_def h_def)
    show "set (removeAll c (roots d)) \<subseteq> ID ` set (vertices d)"
      using inv by (auto simp: dag_inv_def)
  qed
  with d' show ?thesis by simp
qed

lemma dag_inv_link_parents:
  "dag_inv d \<Longrightarrow> link_parents d vid ps = (None, d') \<Longrightarrow> dag_inv d'"
proof (induction ps arbitrary: d)
  case Nil
  then show ?case by simp
next
  case (Cons p ps)
  from Cons.prems(2) obtain d1 where ae: "AddEdge d p vid = (None, d1)"
    and rest: "link_parents d1 vid ps = (None, d')"
    by (auto split: prod.splits option.splits)
  from dag_inv_AddEdge[OF Cons.prems(1), of p vid] ae have "dag_inv d1" by simp
  from Cons.IH[OF this rest] show ?case .
qed

lemma dag_inv_Avalanche_AddVertex:
  assumes inv: "dag_inv (dag a)"
  shows "dag_inv (dag (snd (Avalanche_AddVertex a vid dat ps)))"
proof (cases "lookup (vertices (dag a)) vid")
  case (Some v)
  with inv show ?thesis by (simp add: Avalanche_AddVertex_def DAG_AddVertex_def)
next
  case None
  obtain res a' where r: "Avalanche_AddVertex a vid dat ps = (res, a')" by force
  show ?thesis
  proof (cases res)
    case (Inl e)
    with AddVertex_rollback[OF inv None, of dat ps] r inv show ?thesis by auto
  next
    case (Inr y)
    let ?d1 = "snd (DAG_AddVertex (dag a) vid dat)"
    have i1: "dag_inv ?d1" using inv by (rule dag_inv_DAG_AddVertex)
    from r Inr None obtain d' where lp: "link_parents ?d1 vid ps = (None, d')" and a': "dag a' = d'"
      by (auto simp: Avalanche_AddVertex_def DAG_AddVertex_def split: prod.splits option.splits)
    from dag_inv_link_parents[OF i1 lp] a' r show ?thesis by simp
  qed
qed

lemma dag_inv_finalize:
  assumes inv: "dag_inv (dag a)"
  shows "dag_inv (dag (finalize a vid))"
proof -
  define h :: "'a Vertex \<Rightarrow> 'a Vertex" where
    "h = (\<lambda>v. if ID v = vid then v\<lparr>Finalized := True\<rparr> else v)"
  have "dag_inv ((dag a)\<lparr>vertices := map h (vertices (dag a)), roots := roots (dag a)\<rparr>)"
  proof (rule dag_inv_map[OF inv])
    show "ID (h v) = ID v" for v by (simp add: h_def)
    show "distinct (Parents (h v)) \<and> distinct (Children (h v)) \<and>
        set (Parents (h v)) \<subseteq> ID ` set (vertices (dag a)) \<and>
        set (Children (h v)) \<subseteq> ID ` set (vertices (dag a))" if "v \<in> set (vertices (dag a))" for v
      using that inv by (auto simp: dag_inv_def h_def)
    show "set (roots (dag a)) \<subseteq> ID ` set (vertices (dag a))"
      using inv by (auto simp: dag_inv_def)
  qed
  then show ?thesis using inv
    by (auto simp: finalize_def Let_def DAG_GetVertex_def upd_vertex_def h_def split: option.splits)
qed

lemma dag_inv_processVertex:
  assumes inv: "dag_inv (dag a)" and pv: "processVertex a vid r = Inr (a', r')"
  shows "dag_inv (dag a')"
proof -
  from processVertex_cases[OF pv] consider "a' = a"
    | c where "a' = a\<lparr>pending := AList.update vid c (pending a)\<rparr>"
    | c where "a' = finalize (a\<lparr>pending := AList.update vid c (pending a)\<rparr>) vid"
    by blast
  then show ?thesis
  proof cases
    case 1
    with inv show ?thesis by simp
  next
    case 2
    with inv show ?thesis by simp
  next
    case 3
    have "dag_inv (dag (a\<lparr>pending := AList.update vid c (pending a)\<rparr>))" using inv by simp
    from dag_inv_finalize[OF this] 3 show ?thesis by simp
  qed
qed

lemma dag_inv_process_all:
  "dag_inv (dag a) \<Longrightarrow> process_all a ids r = Inr (a', r') \<Longrightarrow> dag_inv (dag a')"
proof (induction ids arbitrary: a r)
  case Nil
  then show ?case by simp
next
  case (Cons vid ids)
  from Cons.prems(2) obtain a1 r1 where pv: "processVertex a vid r = Inr (a1, r1)"
    and rest: "process_all a1 ids r1 = Inr (a', r')"
    by (auto split: sum.splits)
  from dag_inv_processVertex[OF Cons.prems(1) pv] rest show ?case by (rule Cons.IH)
qed

lemma dag_inv_step: "dag_inv (dag a) \<Longrightarrow> step a x = Inr a' \<Longrightarrow> dag_inv (dag a')"
proof (cases x)
  case (OpAddVertex vid dat ps)
  assume "dag_inv (dag a)" "step a x = Inr a'"
  with OpAddVertex dag_inv_Avalanche_AddVertex[of a vid dat ps] show ?thesis by auto
next
  case (OpProcessVertex vid r)
  assume "dag_inv (dag a)" "step a x = Inr a'"
  with OpProcessVertex show ?thesis by (auto split: sum.splits dest: dag_inv_processVertex)
next
  case (OpConsensusRound r)
  assume "dag_inv (dag a)" "step a x = Inr a'"
  with OpConsensusRound show ?thesis
    by (auto simp: consensusRound_def split: sum.splits dest: dag_inv_process_all)
qed

lemma dag_inv_run: "dag_inv (dag a) \<Longrightarrow> run a xs = Inr a' \<Longrightarrow> dag_inv (dag a')"
proof (induction xs arbitrary: a)
  case Nil
  then show ?case by simp
next
  case (Cons x xs)
  from Cons.prems(2) obtain a1 where s: "step a x = Inr a1" and r: "run a1 xs = Inr a'"
    by (auto split: sum.splits)
  from dag_inv_step[OF Cons.prems(1) s] r show ?case by (rule Cons.IH)
qed

subsection \<open>The confidence counters stay below the larger threshold\<close>

text \<open>
  A counter is stored as \<open>c + 1\<close> only when that is below the threshold, so from a new
  engine no counter ever reaches the larger threshold: every counter of a state the
  engine reaches is not negative and below the largest \<^verbatim>\<open>int\<close>, and
  \<^verbatim>\<open>currentCount + 1\<close> does not wrap there.
\<close>

lemma threshold_le_max:
  "getConfidenceThreshold a vid = Inr t \<Longrightarrow>
     t \<le> max (BetaVirtuous (params a)) (BetaRogue (params a))"
  by (auto simp: getConfidenceThreshold_def split: sum.splits if_splits)

lemma processVertex_counter_cases:
  assumes "processVertex a vid r = Inr (a', r')"
  shows "a' = a \<or>
     a' = a\<lparr>pending := AList.update vid 0 (pending a)\<rparr> \<or>
     (\<exists>t. getConfidenceThreshold a vid = Inr t \<and> wrap64 (pending_count a vid + 1) < t \<and>
          a' = a\<lparr>pending := AList.update vid (wrap64 (pending_count a vid + 1)) (pending a)\<rparr>) \<or>
     (pending a' = AList.delete vid (pending a) \<and> params a' = params a)"
proof (cases "IsFinalized a vid")
  case True
  with assms show ?thesis by (simp add: processVertex_def)
next
  case False
  from assms False obtain samples r1 where
    s: "getSamples a vid (K (params a)) r = Inr (samples, r1)"
    by (auto simp: processVertex_def Let_def split: sum.splits)
  show ?thesis
  proof (cases "samples = []")
    case True
    with assms False s show ?thesis by (simp add: processVertex_def)
  next
    case ne: False
    obtain pc r2 where c: "count_preferences a vid samples 0 r1 = (pc, r2)" by force
    let ?a1 = "a\<lparr>pending := AList.update vid (wrap64 (pending_count a vid + 1)) (pending a)\<rparr>"
    have pc1: "pending_count ?a1 vid = wrap64 (pending_count a vid + 1)"
      by (simp add: pending_count_def update_conv')
    have fin: "pending (finalize ?a1 vid) = AList.delete vid (pending a) \<and>
        params (finalize ?a1 vid) = params a"
      by (auto simp: finalize_def Let_def delete_update_same split: sum.splits)
    show ?thesis using assms False s ne c pc1 fin
      by (auto simp: processVertex_def Let_def split: if_splits sum.splits)
  qed
qed

lemma processVertex_bounded:
  assumes b: "counters_bounded a" and pv: "processVertex a vid r = Inr (a', r')"
  shows "counters_bounded a'"
proof -
  let ?m = "max (BetaVirtuous (params a)) (BetaRogue (params a))"
  have m: "?m \<le> max_int" using b by (simp add: counters_bounded_def)
  have nonneg: "0 \<le> pending_count a vid"
    and small: "pending_count a vid = 0 \<or> pending_count a vid < ?m"
    using b by (auto simp: counters_bounded_def pending_count_def split: option.splits)
  have "pending_count a vid + 1 \<le> max_int"
    using small m by (auto simp: max_int_def)
  with nonneg have w: "wrap64 (pending_count a vid + 1) = pending_count a vid + 1"
    by (intro wrap64_id) simp_all
  from processVertex_counter_cases[OF pv] show ?thesis
  proof (elim disjE conjE exE)
    assume "a' = a" with b show ?thesis by simp
  next
    assume "a' = a\<lparr>pending := AList.update vid 0 (pending a)\<rparr>"
    with b show ?thesis by (auto simp: counters_bounded_def update_conv')
  next
    fix t
    assume thr: "getConfidenceThreshold a vid = Inr t"
      and lt: "wrap64 (pending_count a vid + 1) < t"
      and a': "a' = a\<lparr>pending := AList.update vid (wrap64 (pending_count a vid + 1)) (pending a)\<rparr>"
    from lt w threshold_le_max[OF thr] have "pending_count a vid + 1 < ?m" by linarith
    with b nonneg a' w show ?thesis by (auto simp: counters_bounded_def update_conv')
  next
    assume "pending a' = AList.delete vid (pending a)" "params a' = params a"
    with b show ?thesis by (auto simp: counters_bounded_def delete_conv')
  qed
qed

lemma AddVertex_bounded:
  assumes b: "counters_bounded a"
  shows "counters_bounded (snd (Avalanche_AddVertex a vid dat ps))"
proof -
  obtain res a' where r: "Avalanche_AddVertex a vid dat ps = (res, a')" by force
  from Avalanche_AddVertex_cases[OF r] b r show ?thesis
    by (cases res) (auto simp: counters_bounded_def update_conv')
qed

lemma process_all_bounded:
  "counters_bounded a \<Longrightarrow> process_all a ids r = Inr (a', r') \<Longrightarrow> counters_bounded a'"
proof (induction ids arbitrary: a r)
  case Nil
  then show ?case by simp
next
  case (Cons vid ids)
  from Cons.prems(2) obtain a1 r1 where pv: "processVertex a vid r = Inr (a1, r1)"
    and rest: "process_all a1 ids r1 = Inr (a', r')"
    by (auto split: sum.splits)
  from processVertex_bounded[OF Cons.prems(1) pv] rest show ?case by (rule Cons.IH)
qed

lemma step_bounded: "counters_bounded a \<Longrightarrow> step a x = Inr a' \<Longrightarrow> counters_bounded a'"
proof (cases x)
  case (OpAddVertex vid dat ps)
  assume "counters_bounded a" "step a x = Inr a'"
  with OpAddVertex AddVertex_bounded[of a vid dat ps] show ?thesis by auto
next
  case (OpProcessVertex vid r)
  assume "counters_bounded a" "step a x = Inr a'"
  with OpProcessVertex show ?thesis by (auto split: sum.splits dest: processVertex_bounded)
next
  case (OpConsensusRound r)
  assume "counters_bounded a" "step a x = Inr a'"
  with OpConsensusRound show ?thesis
    by (auto simp: consensusRound_def split: sum.splits dest: process_all_bounded)
qed

lemma run_bounded: "counters_bounded a \<Longrightarrow> run a xs = Inr a' \<Longrightarrow> counters_bounded a'"
proof (induction xs arbitrary: a)
  case Nil
  then show ?case by simp
next
  case (Cons x xs)
  from Cons.prems(2) obtain a1 where s: "step a x = Inr a1" and r: "run a1 xs = Inr a'"
    by (auto split: sum.splits)
  from step_bounded[OF Cons.prems(1) s] r show ?case by (rule Cons.IH)
qed

lemma NewAvalanche_bounded:
  "BetaVirtuous ps \<le> max_int \<Longrightarrow> BetaRogue ps \<le> max_int \<Longrightarrow>
     counters_bounded (NewAvalanche d ps)"
  by (simp add: counters_bounded_def NewAvalanche_def)

lemma counters_bounded_below_max_int:
  "counters_bounded a \<Longrightarrow> map_of (pending a) vid = Some c \<Longrightarrow> 0 \<le> c \<and> c < max_int"
proof -
  assume b: "counters_bounded a" and p: "map_of (pending a) vid = Some c"
  let ?m = "max (BetaVirtuous (params a)) (BetaRogue (params a))"
  from b have m: "?m \<le> max_int" by (simp add: counters_bounded_def)
  from b p have c: "0 \<le> c" "c = 0 \<or> c < ?m" by (auto simp: counters_bounded_def)
  from c(2) m have "c < max_int" by (auto simp: max_int_def)
  with c(1) show ?thesis by simp
qed

end
